theory Spec2Isabelle
  imports Complex_Main "HOL-Library.Word"
begin

section \<open>The string functions of jlib: data model\<close>

text \<open>
  A Go \<^verbatim>\<open>string\<close> is a sequence of bytes; it is modelled as \<^typ>\<open>string\<close>, a list
  of 8-bit characters. Offsets into a string are byte offsets, as in the source. Go's
  \<^verbatim>\<open>int\<close> is taken to be 64 bits wide, as on the amd64 machines the tests of the
  repository run on; it is an \<^typ>\<open>int\<close> where only offsets and lengths of strings
  that exist are held, and a \<^typ>\<open>64 word\<close>, read as a signed number, where the
  source computes with numbers of the input: the digits of a replacement string
  (\<^verbatim>\<open>runesToNumbers\<close>) and the offsets that a matcher returns.
\<close>

text \<open>
  Every \<^verbatim>\<open>fmt.Errorf\<close> of the source is one constructor, in the order of the source.
  \<open>ErrCall\<close> is an error returned by a callable itself. The two run-time panics that the
  modelled functions can raise are values as well: an index out of range and slice bounds
  out of range.
\<close>

datatype error =
    ErrCall
  | ErrContainsArg
  | ErrSplitLimit
  | ErrSplitArg
  | ErrMatchLimit
  | ErrReplaceLimit
  | ErrReplacePattern
  | ErrReplaceEmpty
  | ErrReplaceNotString
  | ErrReplaceArg
  | ErrNotObject
  | ErrMatchField
  | ErrStartField
  | ErrEndField
  | ErrGroupsField
  | ErrNextField
  | ErrReplaceFuncResult
  | PanicIndex
  | PanicSlice

text \<open>
  The struct \<^verbatim>\<open>match\<close> (string.go, lines 536-540); \<^verbatim>\<open>indexes\<close> is a pair of
  64-bit integers.
\<close>

record match =
  mvalue :: string
  indexes :: "64 word \<times> 64 word"
  groups :: "string list"

text \<open>\<^verbatim>\<open>m.indexes[0]\<close> and \<^verbatim>\<open>m.indexes[1]\<close>, read as signed integers.\<close>

definition mstart :: "match \<Rightarrow> int" where
  "mstart m = sint (fst (indexes m))"

definition mend :: "match \<Rightarrow> int" where
  "mend m = sint (snd (indexes m))"

text \<open>
  The values of Go's \<^verbatim>\<open>float64\<close>: a finite value, which is the real number it denotes
  (the rounding of floating-point arithmetic is not modelled), the two infinities and
  not-a-number.
\<close>

datatype float64 = Finite real | PosInf | NegInf | NaN

text \<open>
  Modelled from the spec: the dynamic values of package \<^verbatim>\<open>jtypes\<close>
  (\<^verbatim>\<open>reflect.Value\<close> seen through \<^verbatim>\<open>IsMap\<close>, \<^verbatim>\<open>AsString\<close>, \<^verbatim>\<open>AsNumber\<close>,
  \<^verbatim>\<open>IsArrayOf\<close>, \<^verbatim>\<open>AsCallable\<close>), which are not part of the sources at hand. A value is
  absent (\<open>JInvalid\<close>: the zero \<^verbatim>\<open>reflect.Value\<close>, also what \<^verbatim>\<open>MapIndex\<close> gives for a
  missing key), a string, a number, an array, an object with string keys, a callable, or
  something else. A number is a \<^verbatim>\<open>float64\<close>, as \<^verbatim>\<open>AsNumber\<close> returns it. A callable
  is named by a value of type \<open>'c\<close>.
\<close>

datatype 'c jvalue =
    JInvalid
  | JString string
  | JNumber float64
  | JArray "'c jvalue list"
  | JMap "(string \<times> 'c jvalue) list"
  | JCallable 'c
  | JOther

text \<open>
  Modelled from the spec: \<^verbatim>\<open>jtypes.Callable\<close>. Calling the callable \<open>c\<close> with the
  arguments \<open>argv\<close> returns a value, or fails with an error of its own (\<open>Failed\<close>:
  the second result of \<^verbatim>\<open>Call\<close> is not \<^verbatim>\<open>nil\<close>). The result is a function of the
  callable and its arguments: the position that a matcher has reached is carried by the
  continuation it returns.
\<close>

datatype 'c called = Failed | Returned "'c jvalue"

type_synonym 'c caller = "'c \<Rightarrow> 'c jvalue list \<Rightarrow> 'c called"

text \<open>
  Modelled from the spec: \<^verbatim>\<open>StringCallable\<close> with its method \<^verbatim>\<open>toInterface\<close>, the
  pattern or replacement argument: a literal string, a callable, or neither (the
  \<^verbatim>\<open>default\<close> branch of the type switches).
\<close>

datatype 'c StringCallable = SCString string | SCCallable 'c | SCOther

text \<open>
  Modelled from the spec: \<^verbatim>\<open>jtypes.OptionalInt\<close>, an integer with a flag telling whether
  the argument was given (method \<^verbatim>\<open>IsSet\<close>).
\<close>

record OptionalInt =
  IntVal :: int
  IsSet :: bool

definition unset :: OptionalInt where
  "unset = \<lparr>IntVal = 0, IsSet = False\<rparr>"

definition limit_of :: "int \<Rightarrow> OptionalInt" where
  "limit_of n = \<lparr>IntVal = n, IsSet = True\<rparr>"

section \<open>Go primitives on strings\<close>

text \<open>
  The slice expression \<^verbatim>\<open>s[lo:hi]\<close> of Go panics unless \<open>0 \<le> lo \<le> hi \<le> len(s)\<close>.
\<close>

definition slice :: "string \<Rightarrow> int \<Rightarrow> int \<Rightarrow> error + string" where
  "slice s lo hi =
     (if 0 \<le> lo \<and> lo \<le> hi \<and> hi \<le> int (length s)
      then Inr (take (nat (hi - lo)) (drop (nat lo) s))
      else Inl PanicSlice)"

text \<open>\<^verbatim>\<open>s[lo:]\<close> is \<^verbatim>\<open>s[lo:len(s)]\<close> and \<^verbatim>\<open>s[:hi]\<close> is \<^verbatim>\<open>s[0:hi]\<close>.\<close>

definition slice_from :: "string \<Rightarrow> int \<Rightarrow> error + string" where
  "slice_from s lo = slice s lo (int (length s))"

definition slice_to :: "string \<Rightarrow> int \<Rightarrow> error + string" where
  "slice_to s hi = slice s 0 hi"

text \<open>
  \<^verbatim>\<open>strings.IndexRune(s, r)\<close> for an ASCII rune \<open>r\<close> is the offset of the first byte
  equal to \<open>r\<close>; \<open>None\<close> stands for the result \<open>-1\<close>.
\<close>

fun IndexRune :: "string \<Rightarrow> char \<Rightarrow> nat option" where
  "IndexRune [] c = None"
| "IndexRune (x # xs) c = (if x = c then Some 0 else map_option Suc (IndexRune xs c))"

text \<open>\<^verbatim>\<open>strings.ContainsRune(s, r)\<close> is \<^verbatim>\<open>IndexRune(s, r) >= 0\<close>.\<close>

definition ContainsRune :: "string \<Rightarrow> char \<Rightarrow> bool" where
  "ContainsRune s c = (IndexRune s c \<noteq> None)"

text \<open>
  A rune decoded from the front of a string is a decimal digit exactly when the first byte
  is one of the bytes 0x30 to 0x39: every byte from 0x80 on starts a rune above \<open>'9'\<close> or
  decodes to \<^verbatim>\<open>utf8.RuneError\<close> (U+FFFD), which is above \<open>'9'\<close> too.
\<close>

definition isDigit :: "char \<Rightarrow> bool" where
  "isDigit c = (48 \<le> (of_char c :: nat) \<and> (of_char c :: nat) \<le> 57)"

section \<open>The token expander\<close>

text \<open>
  \<^verbatim>\<open>runesToNumbers\<close> (lines 705-716): \<open>nums[i]\<close> is the value of the first \<open>i + 1\<close>
  digits, computed from zero in 64-bit arithmetic, which wraps around.
\<close>

definition digitVal :: "char \<Rightarrow> 64 word" where
  "digitVal r = word_of_nat (of_char r - 48)"

definition runesToNumbers :: "string \<Rightarrow> 64 word list" where
  "runesToNumbers runes =
     map (\<lambda>i. foldl (\<lambda>n r. n * 10 + digitVal r) 0 (take (Suc i) runes)) [0..<length runes]"

text \<open>
  The loop of lines 667-676, \<^verbatim>\<open>for i := len(indexes) - 1; i >= 0; i--\<close>. The argument
  \<open>k\<close> is \<open>i + 1\<close>. The test of the source is \<^verbatim>\<open>index < len(m.groups)\<close> on signed
  integers only; \<^verbatim>\<open>m.groups[index]\<close> with a negative index panics. The result is \<open>None\<close>
  when the loop ends without a hit, and otherwise the group with the number \<open>i + 1\<close> of
  bytes to drop.
\<close>

fun pickGroup :: "64 word list \<Rightarrow> string list \<Rightarrow> nat \<Rightarrow> (error + string \<times> nat) option" where
  "pickGroup idxs gs 0 = None"
| "pickGroup idxs gs (Suc i) =
     (let index = sint (idxs ! i - 1) in
      if index < int (length gs)
      then (if index < 0 then Some (Inl PanicIndex) else Some (Inr (gs ! nat index, Suc i)))
      else pickGroup idxs gs i)"

text \<open>
  \<^verbatim>\<open>expandReplaceString\<close> (lines 619-682). The loop carries the rest \<open>s\<close> of the
  replacement string and the \<open>result\<close> built so far.
\<close>

function expandLoop :: "string \<Rightarrow> match \<Rightarrow> string \<Rightarrow> error + string" where
  "expandLoop s m result =
     (case IndexRune s (CHR ''$'') of
        None \<Rightarrow> Inr (result @ s)
      | Some pos \<Rightarrow>
          (let result1 = result @ take pos s;
               s1 = drop (Suc pos) s
           in if s1 = [] then Inr (result1 @ ''$'')
              else if hd s1 = CHR ''$'' \<or> \<not> isDigit (hd s1)
              then expandLoop (if hd s1 = CHR ''$'' then tl s1 else s1) m (result1 @ ''$'')
              else if hd s1 = CHR ''0''
              then expandLoop (tl s1) m (result1 @ mvalue m)
              else (let digits = takeWhile isDigit s1;
                        idxs = runesToNumbers digits
                    in case pickGroup idxs (groups m) (length idxs) of
                         Some (Inl e) \<Rightarrow> Inl e
                       | Some (Inr (g, k)) \<Rightarrow> expandLoop (drop k s1) m (result1 @ g)
                       | None \<Rightarrow> expandLoop (tl s1) m result1)))"
  by pat_completeness auto
termination
proof (relation "measure (\<lambda>(s, m, result). length s)")
  show "wf (measure (\<lambda>(s, m, result). length s))" by simp
qed (auto simp: less_Suc_eq_le intro: le_less_trans [OF diff_le_self])

declare expandLoop.simps [simp del]

definition expandReplaceString :: "string \<Rightarrow> match \<Rightarrow> error + string" where
  "expandReplaceString s m = expandLoop s m []"

section \<open>Functions of Go's standard library\<close>

text \<open>
  \<^verbatim>\<open>strings.Index(s, substr)\<close>: the offset of the first instance of \<open>substr\<close> in \<open>s\<close>;
  \<open>None\<close> stands for the result \<open>-1\<close>.
\<close>

fun strings_Index :: "string \<Rightarrow> string \<Rightarrow> nat option" where
  "strings_Index [] sub = (if sub = [] then Some 0 else None)"
| "strings_Index (x # xs) sub =
     (if take (length sub) (x # xs) = sub then Some 0
      else map_option Suc (strings_Index xs sub))"

text \<open>\<^verbatim>\<open>strings.Contains(s, substr)\<close> is \<^verbatim>\<open>Index(s, substr) >= 0\<close>.\<close>

definition strings_Contains :: "string \<Rightarrow> string \<Rightarrow> bool" where
  "strings_Contains s sub = (strings_Index s sub \<noteq> None)"

text \<open>
  The width that \<^verbatim>\<open>utf8.DecodeRuneInString\<close> reports for the front of a non-empty
  string: the length of a well-formed UTF-8 sequence, and 1 for a byte that starts none.
\<close>

definition contByte :: "string \<Rightarrow> nat \<Rightarrow> nat \<Rightarrow> nat \<Rightarrow> bool" where
  "contByte s i lo hi = (i < length s \<and> lo \<le> (of_char (s ! i) :: nat) \<and> (of_char (s ! i) :: nat) \<le> hi)"

definition runeWidth :: "string \<Rightarrow> nat" where
  "runeWidth s =
     (let b = (of_char (hd s) :: nat) in
      if b < 128 then 1
      else if 194 \<le> b \<and> b \<le> 223 then (if contByte s 1 128 191 then 2 else 1)
      else if 224 \<le> b \<and> b \<le> 239 then
        (if contByte s 1 (if b = 224 then 160 else 128) (if b = 237 then 159 else 191)
            \<and> contByte s 2 128 191 then 3 else 1)
      else if 240 \<le> b \<and> b \<le> 244 then
        (if contByte s 1 (if b = 240 then 144 else 128) (if b = 244 then 143 else 191)
            \<and> contByte s 2 128 191 \<and> contByte s 3 128 191 then 4 else 1)
      else 1)"

lemma runeWidth_pos: "0 < runeWidth s"
  by (simp add: runeWidth_def Let_def)

text \<open>
  \<^verbatim>\<open>explode(s, -1)\<close> of package \<^verbatim>\<open>strings\<close>: one string for each UTF-8 sequence of \<open>s\<close>.
\<close>

function explode :: "string \<Rightarrow> string list" where
  "explode s = (if s = [] then [] else take (runeWidth s) s # explode (drop (runeWidth s) s))"
  by pat_completeness auto
termination
  by (relation "measure length") (auto simp: runeWidth_pos)

declare explode.simps [simp del]

text \<open>\<^verbatim>\<open>utf8.RuneCountInString\<close>: the number of those sequences.\<close>

definition RuneCountInString :: "string \<Rightarrow> nat" where
  "RuneCountInString s = length (explode s)"

lemma take_eq_length: "take (length sub) ys = sub \<Longrightarrow> length sub \<le> length ys"
proof -
  assume a: "take (length sub) ys = sub"
  have "length (take (length sub) ys) \<le> length ys" by simp
  with a show ?thesis by simp
qed

lemma strings_Index_le: "strings_Index s sub = Some i \<Longrightarrow> i + length sub \<le> length s"
proof (induction s arbitrary: i)
  case Nil
  then show ?case by (simp split: if_splits)
next
  case (Cons x xs)
  show ?case
  proof (cases "take (length sub) (x # xs) = sub")
    case True
    then have "length sub \<le> length (x # xs)"
      by (rule take_eq_length)
    with True Cons.prems show ?thesis by simp
  next
    case False
    with Cons.prems obtain j where "strings_Index xs sub = Some j" "i = Suc j"
      by auto
    with Cons.IH show ?thesis by fastforce
  qed
qed

text \<open>
  \<^verbatim>\<open>strings.Count(s, substr)\<close>: the number of non-overlapping instances of \<open>substr\<close>,
  found from the left; for the empty \<open>substr\<close>, one more than the number of runes.
\<close>

function countLoop :: "string \<Rightarrow> string \<Rightarrow> nat \<Rightarrow> nat" where
  "countLoop s sub n =
     (if sub = [] then n
      else case strings_Index s sub of
             None \<Rightarrow> n
           | Some i \<Rightarrow> countLoop (drop (i + length sub) s) sub (Suc n))"
  by pat_completeness auto

termination
proof (relation "measure (\<lambda>(s, sub, n). length s)")
  show "wf (measure (\<lambda>(s, sub, n). length s))" by simp
next
  fix s sub :: string and n i :: nat
  assume "sub \<noteq> []" "strings_Index s sub = Some i"
  then have "i + length sub \<le> length s" "0 < length sub"
    by (simp_all add: strings_Index_le)
  then have "length (drop (i + length sub) s) < length s"
    unfolding length_drop by arith
  then show "((drop (i + length sub) s, sub, Suc n), (s, sub, n)) \<in> measure (\<lambda>(s, sub, n). length s)"
    by simp
qed

declare countLoop.simps [simp del]

definition strings_Count :: "string \<Rightarrow> string \<Rightarrow> nat" where
  "strings_Count s sub = (if sub = [] then RuneCountInString s + 1 else countLoop s sub 0)"

text \<open>
  \<^verbatim>\<open>strings.Replace(s, old, new, n)\<close>. After the number \<open>n\<close> of replacements is fixed
  (at most \<^verbatim>\<open>Count(s, old)\<close>), the loop writes, \<open>n\<close> times, the text before the next
  instance of \<open>old\<close> and then \<open>new\<close>, and at the end the rest of \<open>s\<close>. The model's loops
  carry the rest \<open>s[start:]\<close> instead of \<open>start\<close>. For the empty \<open>old\<close>, \<open>new\<close> goes in
  front of \<open>s\<close> and after each of its runes.
\<close>

fun replaceOld :: "string \<Rightarrow> string \<Rightarrow> string \<Rightarrow> nat \<Rightarrow> string" where
  "replaceOld s old new 0 = s"
| "replaceOld s old new (Suc k) =
     (case strings_Index s old of
        None \<Rightarrow> s
      | Some j \<Rightarrow> take j s @ new @ replaceOld (drop (j + length old) s) old new k)"

fun replaceRunes :: "string \<Rightarrow> string \<Rightarrow> nat \<Rightarrow> string" where
  "replaceRunes s new 0 = s"
| "replaceRunes s new (Suc k) =
     (if s = [] then s
      else take (runeWidth s) s @ new @ replaceRunes (drop (runeWidth s) s) new k)"

definition strings_Replace :: "string \<Rightarrow> string \<Rightarrow> string \<Rightarrow> int \<Rightarrow> string" where
  "strings_Replace s old new n =
     (if old = new \<or> n = 0 then s
      else let m = strings_Count s old in
        if m = 0 then s
        else let k = (if n < 0 \<or> int m < n then m else nat n) in
          if old = [] then new @ replaceRunes s new (k - 1)
          else replaceOld s old new k)"

text \<open>
  \<^verbatim>\<open>strings.Split(s, sep)\<close>, that is \<^verbatim>\<open>genSplit(s, sep, 0, -1)\<close>: the runes of \<open>s\<close> for
  the empty separator, and otherwise the pieces between the \<^verbatim>\<open>Count(s, sep)\<close>
  instances of the separator.
\<close>

fun genSplitLoop :: "string \<Rightarrow> string \<Rightarrow> nat \<Rightarrow> string list" where
  "genSplitLoop s sep 0 = [s]"
| "genSplitLoop s sep (Suc k) =
     (case strings_Index s sep of
        None \<Rightarrow> [s]
      | Some m \<Rightarrow> take m s # genSplitLoop (drop (m + length sep) s) sep k)"

definition strings_Split :: "string \<Rightarrow> string \<Rightarrow> string list" where
  "strings_Split s sep =
     (if sep = [] then explode s else genSplitLoop s sep (strings_Count s sep))"

section \<open>The matcher protocol driver\<close>

text \<open>
  Modelled from the spec: the accessors of package \<^verbatim>\<open>jtypes\<close> and of
  \<^verbatim>\<open>reflect.Value\<close> that \<^verbatim>\<open>callMatchFunc\<close> uses, which are not part of the sources at
  hand, on the modelled values: a valid result carries a string \<open>match\<close>, numbers
  \<open>start\<close> and \<open>end\<close>, a sequence of strings \<open>groups\<close> and a callable \<open>next\<close>.
  \<^verbatim>\<open>MapIndex\<close> gives the absent value for a key that the object does not have, and
  \<^verbatim>\<open>jtypes.Resolve\<close> is the identity on the modelled values.
\<close>

definition IsValid :: "'c jvalue \<Rightarrow> bool" where
  "IsValid v = (case v of JInvalid \<Rightarrow> False | _ \<Rightarrow> True)"

definition IsMap :: "'c jvalue \<Rightarrow> bool" where
  "IsMap v = (case v of JMap _ \<Rightarrow> True | _ \<Rightarrow> False)"

definition MapIndex :: "'c jvalue \<Rightarrow> string \<Rightarrow> 'c jvalue" where
  "MapIndex v k =
     (case v of
        JMap kvs \<Rightarrow> (case map_of kvs k of None \<Rightarrow> JInvalid | Some x \<Rightarrow> x)
      | _ \<Rightarrow> JInvalid)"

definition AsString :: "'c jvalue \<Rightarrow> string option" where
  "AsString v = (case v of JString s \<Rightarrow> Some s | _ \<Rightarrow> None)"

definition IsString :: "'c jvalue \<Rightarrow> bool" where
  "IsString v = (AsString v \<noteq> None)"

definition AsNumber :: "'c jvalue \<Rightarrow> float64 option" where
  "AsNumber v = (case v of JNumber r \<Rightarrow> Some r | _ \<Rightarrow> None)"

definition IsArrayOf :: "'c jvalue \<Rightarrow> ('c jvalue \<Rightarrow> bool) \<Rightarrow> bool" where
  "IsArrayOf v hasType = (case v of JArray xs \<Rightarrow> list_all hasType xs | _ \<Rightarrow> False)"

definition arrayElems :: "'c jvalue \<Rightarrow> 'c jvalue list" where
  "arrayElems v = (case v of JArray xs \<Rightarrow> xs | _ \<Rightarrow> [])"

definition AsCallable :: "'c jvalue \<Rightarrow> 'c option" where
  "AsCallable v = (case v of JCallable c \<Rightarrow> Some c | _ \<Rightarrow> None)"

text \<open>
  The conversion \<^verbatim>\<open>int(x)\<close> of a \<^verbatim>\<open>float64\<close> (lines 612-613) drops the fraction. For
  a value that the 64-bit integers cannot hold, for the infinities and for not-a-number,
  Go leaves the result to the implementation; it is the one of amd64 here, the smallest
  integer \<open>-2^63\<close>.
\<close>

definition minInt64 :: "64 word" where
  "minInt64 = word_of_int (- (2 ^ 63))"

definition goInt :: "float64 \<Rightarrow> 64 word" where
  "goInt x =
     (case x of
        Finite r \<Rightarrow>
          (let t = (if 0 \<le> r then \<lfloor>r\<rfloor> else \<lceil>r\<rceil>)
           in if - (2 ^ 63) \<le> t \<and> t < 2 ^ 63 then word_of_int t else minInt64)
      | _ \<Rightarrow> minInt64)"

text \<open>
  Lines 567-616 of \<^verbatim>\<open>callMatchFunc\<close>: the checks on a result that is present, in the
  order of the source, and the match record and continuation that a result passing all
  of them gives. Neither \<open>start\<close> nor \<open>end\<close> is compared with anything.
\<close>

definition matchResult :: "'c jvalue \<Rightarrow> error + match \<times> 'c" where
  "matchResult res =
     (if \<not> IsMap res then Inl ErrNotObject
      else case AsString (MapIndex res ''match'') of
        None \<Rightarrow> Inl ErrMatchField
      | Some val \<Rightarrow>
         (case AsNumber (MapIndex res ''start'') of
            None \<Rightarrow> Inl ErrStartField
          | Some start \<Rightarrow>
             (case AsNumber (MapIndex res ''end'') of
                None \<Rightarrow> Inl ErrEndField
              | Some end' \<Rightarrow>
                 (if \<not> IsArrayOf (MapIndex res ''groups'') IsString then Inl ErrGroupsField
                  else let gs = map (\<lambda>v. case AsString v of Some s \<Rightarrow> s | None \<Rightarrow> [])
                                    (arrayElems (MapIndex res ''groups''))
                       in case AsCallable (MapIndex res ''next'') of
                            None \<Rightarrow> Inl ErrNextField
                          | Some next \<Rightarrow>
                              Inr (\<lparr>mvalue = val, indexes = (goInt start, goInt end'), groups = gs\<rparr>,
                                   next)))))"

text \<open>
  \<^verbatim>\<open>callMatchFunc\<close> (lines 556-617). The source calls itself with the continuation
  until a call returns nothing; a matcher that always returns a further match keeps it
  running, so the model is a partial function and \<open>None\<close> is the run that does not
  return. The last argument counts the calls \<^verbatim>\<open>fn.Call\<close> made so far, and the count is
  returned with the result.
\<close>

partial_function (option) callMatchFunc ::
  "'c caller \<Rightarrow> 'c \<Rightarrow> 'c jvalue list \<Rightarrow> match list \<Rightarrow> nat \<Rightarrow> ((error + match list) \<times> nat) option"
where
  "callMatchFunc call fn argv matches n =
     (case call fn argv of
        Failed \<Rightarrow> Some (Inl ErrCall, Suc n)
      | Returned res \<Rightarrow>
         (if \<not> IsValid res then Some (Inr matches, Suc n)
          else case matchResult res of
                 Inl e \<Rightarrow> Some (Inl e, Suc n)
               | Inr (m, next) \<Rightarrow> callMatchFunc call next [] (matches @ [m]) (Suc n)))"

declare callMatchFunc.simps [code]

text \<open>\<^verbatim>\<open>extractMatches\<close> (lines 542-554): the limit is applied to the finished list.\<close>

definition extractMatches ::
  "'c caller \<Rightarrow> 'c \<Rightarrow> string \<Rightarrow> int \<Rightarrow> ((error + match list) \<times> nat) option"
where
  "extractMatches call fn s limit =
     (case callMatchFunc call fn [JString s] [] 0 of
        None \<Rightarrow> None
      | Some (Inl e, n) \<Rightarrow> Some (Inl e, n)
      | Some (Inr matches, n) \<Rightarrow>
          Some (Inr (if 0 \<le> limit \<and> limit < int (length matches)
                     then take (nat limit) matches else matches), n))"

section \<open>The match consumers\<close>

text \<open>
  Each function that drives a matcher returns, with its result, the number of calls made
  to the matcher and its continuations; a literal pattern makes none.
\<close>

text \<open>\<^verbatim>\<open>Contains\<close> (lines 147-161).\<close>

definition Contains ::
  "'c caller \<Rightarrow> string \<Rightarrow> 'c StringCallable \<Rightarrow> ((error + bool) \<times> nat) option"
where
  "Contains call s pattern =
     (case pattern of
        SCString v \<Rightarrow> Some (Inr (strings_Contains s v), 0)
      | SCCallable v \<Rightarrow>
         (case extractMatches call v s (- 1) of
            None \<Rightarrow> None
          | Some (Inl e, n) \<Rightarrow> Some (Inl e, n)
          | Some (Inr matches, n) \<Rightarrow> Some (Inr (0 < length matches), n))
      | SCOther \<Rightarrow> Some (Inl ErrContainsArg, 0))"

text \<open>
  The loop of \<^verbatim>\<open>Split\<close> over the matches (lines 190-194), carrying \<open>pos\<close> and
  \<open>parts\<close>; each slice expression can panic.
\<close>

fun splitLoop :: "string \<Rightarrow> match list \<Rightarrow> int \<Rightarrow> string list \<Rightarrow> error + string list \<times> int" where
  "splitLoop s [] pos parts = Inr (parts, pos)"
| "splitLoop s (m # ms) pos parts =
     (case slice s pos (mstart m) of
        Inl e \<Rightarrow> Inl e
      | Inr part \<Rightarrow> splitLoop s ms (mend m) (parts @ [part]))"

text \<open>Lines 200-202: the limit, when set, cuts the list of parts.\<close>

definition limitParts :: "OptionalInt \<Rightarrow> string list \<Rightarrow> string list" where
  "limitParts limit parts =
     (if IsSet limit \<and> IntVal limit < int (length parts)
      then take (nat (IntVal limit)) parts else parts)"

text \<open>\<^verbatim>\<open>Split\<close> (lines 174-205).\<close>

definition Split ::
  "'c caller \<Rightarrow> string \<Rightarrow> 'c StringCallable \<Rightarrow> OptionalInt \<Rightarrow> ((error + string list) \<times> nat) option"
where
  "Split call s separator limit =
     (if IntVal limit < 0 then Some (Inl ErrSplitLimit, 0)
      else case separator of
        SCString sep \<Rightarrow> Some (Inr (limitParts limit (strings_Split s sep)), 0)
      | SCCallable sep \<Rightarrow>
         (case extractMatches call sep s (- 1) of
            None \<Rightarrow> None
          | Some (Inl e, n) \<Rightarrow> Some (Inl e, n)
          | Some (Inr matches, n) \<Rightarrow>
             (case splitLoop s matches 0 [] of
                Inl e \<Rightarrow> Some (Inl e, n)
              | Inr (parts, pos) \<Rightarrow>
                 (case slice_from s pos of
                    Inl e \<Rightarrow> Some (Inl e, n)
                  | Inr rest \<Rightarrow> Some (Inr (limitParts limit (parts @ [rest])), n))))
      | SCOther \<Rightarrow> Some (Inl ErrSplitArg, 0))"

text \<open>
  The object that \<^verbatim>\<open>Match\<close> returns for a match and that \<^verbatim>\<open>callReplaceFunc\<close> passes
  to the replacement function (lines 259-263 and 686-690); the integer
  \<^verbatim>\<open>m.indexes[0]\<close> is the number it denotes.
\<close>

definition matchObject :: "match \<Rightarrow> 'c jvalue" where
  "matchObject m =
     JMap [(''match'', JString (mvalue m)),
           (''index'', JNumber (Finite (of_int (mstart m)))),
           (''groups'', JArray (map JString (groups m)))]"

text \<open>Lines 246-249 and 293-296: the limit passed on is \<open>-1\<close> when none is set.\<close>

definition maxOf :: "OptionalInt \<Rightarrow> int" where
  "maxOf limit = (if IsSet limit then IntVal limit else - 1)"

text \<open>\<^verbatim>\<open>Match\<close> (lines 240-267).\<close>

definition Match ::
  "'c caller \<Rightarrow> string \<Rightarrow> 'c \<Rightarrow> OptionalInt \<Rightarrow> ((error + 'c jvalue list) \<times> nat) option"
where
  "Match call s pattern limit =
     (if IntVal limit < 0 then Some (Inl ErrMatchLimit, 0)
      else case extractMatches call pattern s (maxOf limit) of
        None \<Rightarrow> None
      | Some (Inl e, n) \<Rightarrow> Some (Inl e, n)
      | Some (Inr matches, n) \<Rightarrow> Some (Inr (map matchObject matches), n))"

section \<open>The replacement engine\<close>

text \<open>\<^verbatim>\<open>replaceString\<close> (lines 308-320).\<close>

definition replaceString :: "string \<Rightarrow> string \<Rightarrow> 'c StringCallable \<Rightarrow> int \<Rightarrow> error + string" where
  "replaceString src pattern repl limit =
     (if pattern = [] then Inl ErrReplaceEmpty
      else case repl of
        SCString s \<Rightarrow> Inr (strings_Replace src pattern s limit)
      | _ \<Rightarrow> Inl ErrReplaceNotString)"

text \<open>\<^verbatim>\<open>callReplaceFunc\<close> (lines 684-703).\<close>

definition callReplaceFunc :: "'c caller \<Rightarrow> 'c \<Rightarrow> match \<Rightarrow> error + string" where
  "callReplaceFunc call f m =
     (case call f [matchObject m] of
        Failed \<Rightarrow> Inl ErrCall
      | Returned v \<Rightarrow> (case AsString v of None \<Rightarrow> Inl ErrReplaceFuncResult | Some repl \<Rightarrow> Inr repl))"

text \<open>
  Lines 345-357: the replacement text for one match. \<open>f\<close> is the replacement function
  when there is one; otherwise the text is \<open>srepl\<close>, expanded when it holds a \<open>$\<close>.
\<close>

definition replacement :: "'c caller \<Rightarrow> 'c option \<Rightarrow> string \<Rightarrow> bool \<Rightarrow> match \<Rightarrow> error + string" where
  "replacement call f srepl expandable m =
     (case f of
        Some g \<Rightarrow> callReplaceFunc call g m
      | None \<Rightarrow> if expandable then expandReplaceString srepl m else Inr srepl)"

text \<open>
  The loop of lines 343-360. It runs over the matches from the last to the first: the
  list it is given holds the matches in that order. A function of the matches gives the
  replacement texts. Both slice expressions of line 359 can panic.
\<close>

fun replaceLoop :: "(match \<Rightarrow> error + string) \<Rightarrow> string \<Rightarrow> match list \<Rightarrow> error + string" where
  "replaceLoop r src [] = Inr src"
| "replaceLoop r src (m # ms) =
     (case r m of
        Inl e \<Rightarrow> Inl e
      | Inr repl \<Rightarrow>
         (case slice_to src (mstart m) of
            Inl e \<Rightarrow> Inl e
          | Inr before \<Rightarrow>
             (case slice_from src (mend m) of
                Inl e \<Rightarrow> Inl e
              | Inr after \<Rightarrow> replaceLoop r (before @ repl @ after) ms)))"

text \<open>\<^verbatim>\<open>replaceMatchFunc\<close> (lines 322-363).\<close>

definition replaceMatchFunc ::
  "'c caller \<Rightarrow> string \<Rightarrow> 'c \<Rightarrow> 'c StringCallable \<Rightarrow> int \<Rightarrow> ((error + string) \<times> nat) option"
where
  "replaceMatchFunc call src fn repl limit =
     (case repl of
        SCOther \<Rightarrow> Some (Inl ErrReplaceArg, 0)
      | _ \<Rightarrow>
         (let f = (case repl of SCCallable g \<Rightarrow> Some g | _ \<Rightarrow> None);
              srepl = (case repl of SCString s \<Rightarrow> s | _ \<Rightarrow> []);
              expandable = ContainsRune srepl (CHR ''$'')
          in case extractMatches call fn src limit of
               None \<Rightarrow> None
             | Some (Inl e, n) \<Rightarrow> Some (Inl e, n)
             | Some (Inr matches, n) \<Rightarrow>
                 Some (replaceLoop (replacement call f srepl expandable) src (rev matches), n)))"

text \<open>\<^verbatim>\<open>Replace\<close> (lines 287-306).\<close>

definition Replace ::
  "'c caller \<Rightarrow> string \<Rightarrow> 'c StringCallable \<Rightarrow> 'c StringCallable \<Rightarrow> OptionalInt
     \<Rightarrow> ((error + string) \<times> nat) option"
where
  "Replace call src pattern repl limit =
     (if IntVal limit < 0 then Some (Inl ErrReplaceLimit, 0)
      else case pattern of
        SCString p \<Rightarrow> Some (replaceString src p repl (maxOf limit), 0)
      | SCCallable fn \<Rightarrow> replaceMatchFunc call src fn repl (maxOf limit)
      | SCOther \<Rightarrow> Some (Inl ErrReplacePattern, 0))"

section \<open>Notions used to state the properties\<close>

text \<open>A text put in front of a result that may be an error.\<close>


definition emit :: "string \<Rightarrow> error + string \<Rightarrow> error + string" where
  "emit out r = (case r of Inl e \<Rightarrow> Inl e | Inr t \<Rightarrow> Inr (out @ t))"

text \<open>
  What one turn of the loop of \<^verbatim>\<open>expandReplaceString\<close> does with the non-empty text
  \<open>s1\<close> that follows a \<open>$\<close> (lines 639-678): the text it appends to the result and the
  text it goes on with.
\<close>

definition token :: "string \<Rightarrow> match \<Rightarrow> error + string \<times> string" where
  "token s1 m =
     (if hd s1 = CHR ''$'' then Inr (''$'', tl s1)
      else if \<not> isDigit (hd s1) then Inr (''$'', s1)
      else if hd s1 = CHR ''0'' then Inr (mvalue m, tl s1)
      else case pickGroup (runesToNumbers (takeWhile isDigit s1)) (groups m)
                  (length (takeWhile isDigit s1)) of
             Some (Inl e) \<Rightarrow> Inl e
           | Some (Inr (g, k)) \<Rightarrow> Inr (g, drop k s1)
           | None \<Rightarrow> Inr ([], tl s1))"


text \<open>The number that a run of decimal digits denotes.\<close>

definition decimal :: "string \<Rightarrow> nat" where
  "decimal ds = foldl (\<lambda>n r. n * 10 + (of_char r - 48)) 0 ds"

text \<open>
  The first \<open>k\<close> digits of a run, read as a number counting from 1, name one of the
  captured groups \<open>gs\<close>.
\<close>

definition names_group :: "string \<Rightarrow> string list \<Rightarrow> nat \<Rightarrow> bool" where
  "names_group run gs k = (decimal (take k run) \<le> length gs)"

text \<open>
  The matcher started as the callable \<open>fn\<close> with the arguments \<open>argv\<close> returns the
  matches \<open>ms\<close>, one with each call, and then reports the end.
\<close>

fun yields :: "'c caller \<Rightarrow> 'c \<Rightarrow> 'c jvalue list \<Rightarrow> match list \<Rightarrow> bool" where
  "yields call fn argv [] =
     (case call fn argv of Failed \<Rightarrow> False | Returned res \<Rightarrow> \<not> IsValid res)"
| "yields call fn argv (m # ms) =
     (case call fn argv of
        Failed \<Rightarrow> False
      | Returned res \<Rightarrow>
          IsValid res \<and>
          (case matchResult res of
             Inl e \<Rightarrow> False
           | Inr (m', next) \<Rightarrow> m' = m \<and> yields call next [] ms))"

text \<open>
  Notions that follow the words of the specification: a result that is present is
  well-formed when it is an object carrying a string \<open>match\<close>, numbers \<open>start\<close> and
  \<open>end\<close>, an array of strings \<open>groups\<close> and a callable \<open>next\<close>.
\<close>

definition hasField :: "(string \<times> 'c jvalue) list \<Rightarrow> string \<Rightarrow> ('c jvalue \<Rightarrow> bool) \<Rightarrow> bool" where
  "hasField kvs k ok = (case map_of kvs k of None \<Rightarrow> False | Some v \<Rightarrow> ok v)"

definition isStringValue :: "'c jvalue \<Rightarrow> bool" where
  "isStringValue v = (case v of JString _ \<Rightarrow> True | _ \<Rightarrow> False)"

definition isNumberValue :: "'c jvalue \<Rightarrow> bool" where
  "isNumberValue v = (case v of JNumber _ \<Rightarrow> True | _ \<Rightarrow> False)"

definition isStringArray :: "'c jvalue \<Rightarrow> bool" where
  "isStringArray v = (case v of JArray xs \<Rightarrow> list_all isStringValue xs | _ \<Rightarrow> False)"

definition isCallableValue :: "'c jvalue \<Rightarrow> bool" where
  "isCallableValue v = (case v of JCallable _ \<Rightarrow> True | _ \<Rightarrow> False)"

definition wellFormedResult :: "'c jvalue \<Rightarrow> bool" where
  "wellFormedResult res =
     (case res of
        JMap kvs \<Rightarrow>
          hasField kvs ''match'' isStringValue \<and> hasField kvs ''start'' isNumberValue
          \<and> hasField kvs ''end'' isNumberValue \<and> hasField kvs ''groups'' isStringArray
          \<and> hasField kvs ''next'' isCallableValue
      | _ \<Rightarrow> False)"

text \<open>
  The matcher returns \<open>k\<close> results that the driver accepts, and then a result that is
  present but not well-formed.
\<close>

fun violatesAfter :: "'c caller \<Rightarrow> 'c \<Rightarrow> 'c jvalue list \<Rightarrow> nat \<Rightarrow> bool" where
  "violatesAfter call fn argv 0 =
     (case call fn argv of
        Failed \<Rightarrow> False
      | Returned res \<Rightarrow> IsValid res \<and> \<not> wellFormedResult res)"
| "violatesAfter call fn argv (Suc k) =
     (case call fn argv of
        Failed \<Rightarrow> False
      | Returned res \<Rightarrow>
          IsValid res \<and>
          (case matchResult res of
             Inl e \<Rightarrow> False
           | Inr (m, next) \<Rightarrow> violatesAfter call next [] k))"

text \<open>
  The text of \<open>s\<close> from offset \<open>lo\<close> to offset \<open>hi\<close>, for offsets in range.
\<close>

definition sub :: "string \<Rightarrow> int \<Rightarrow> int \<Rightarrow> string" where
  "sub s lo hi = take (nat (hi - lo)) (drop (nat lo) s)"

text \<open>
  The segments of the specification for \<^verbatim>\<open>Split\<close>: \<open>subject[prevEnd:start]\<close> for each
  match, then \<open>subject[prevEnd:]\<close>; a slice out of range is the panic of Go.
\<close>

fun segments :: "string \<Rightarrow> int \<Rightarrow> match list \<Rightarrow> error + string list" where
  "segments s prevEnd [] =
     (case slice_from s prevEnd of Inl e \<Rightarrow> Inl e | Inr seg \<Rightarrow> Inr [seg])"
| "segments s prevEnd (m # ms) =
     (case slice s prevEnd (mstart m) of
        Inl e \<Rightarrow> Inl e
      | Inr seg \<Rightarrow>
         (case segments s (mend m) ms of Inl e \<Rightarrow> Inl e | Inr segs \<Rightarrow> Inr (seg # segs)))"

text \<open>
  The first \<open>limit\<close> elements of a list when a limit is set, and the list otherwise.
\<close>

definition firstN :: "OptionalInt \<Rightarrow> 'a list \<Rightarrow> 'a list" where
  "firstN limit xs = (if IsSet limit then take (nat (IntVal limit)) xs else xs)"

text \<open>
  The spans of the matches lie between \<open>lo\<close> and \<open>hi\<close>, none is reversed, and each
  starts at or after the end of the one before.
\<close>

fun spansIn :: "int \<Rightarrow> int \<Rightarrow> match list \<Rightarrow> bool" where
  "spansIn lo hi [] = (lo \<le> hi)"
| "spansIn lo hi (m # ms) =
     (lo \<le> mstart m \<and> mstart m \<le> mend m \<and> spansIn (mend m) hi ms)"

text \<open>
  The spans lie in the subject.
\<close>

definition spansOK :: "string \<Rightarrow> match list \<Rightarrow> bool" where
  "spansOK s ms = spansIn 0 (int (length s)) ms"

text \<open>
  The text of the subject that a match covers.
\<close>

definition matchedText :: "string \<Rightarrow> match \<Rightarrow> string" where
  "matchedText s m = sub s (mstart m) (mend m)"

text \<open>
  The segments joined again, with the separator texts between them.
\<close>

fun rejoin :: "string list \<Rightarrow> string list \<Rightarrow> string" where
  "rejoin [] seps = []"
| "rejoin (p # ps) [] = p @ rejoin ps []"
| "rejoin (p # ps) (v # vs) = p @ v @ rejoin ps vs"

text \<open>
  The output of the specification for \<^verbatim>\<open>Replace\<close>:
  \<open>subject[prevEnd:start]\<close> and the replacement text \<open>t m\<close> for each match, then
  \<open>subject[prevEnd:]\<close>.
\<close>

fun splice :: "(match \<Rightarrow> string) \<Rightarrow> string \<Rightarrow> int \<Rightarrow> match list \<Rightarrow> string" where
  "splice t s prevEnd [] = sub s prevEnd (int (length s))"
| "splice t s prevEnd (m # ms) =
     sub s prevEnd (mstart m) @ t m @ splice t s (mend m) ms"

text \<open>
  Matchers for the examples. A result object with all five fields, and a matcher that
  returns the results of a list one after the other (callable \<open>i\<close> returns the result
  at position \<open>i\<close>), and then the end.
\<close>

definition resultObj :: "string \<Rightarrow> float64 \<Rightarrow> float64 \<Rightarrow> string list \<Rightarrow> 'c \<Rightarrow> 'c jvalue" where
  "resultObj v a b gs nxt =
     JMap [(''match'', JString v), (''start'', JNumber a), (''end'', JNumber b),
           (''groups'', JArray (map JString gs)), (''next'', JCallable nxt)]"

definition scripted :: "nat jvalue list \<Rightarrow> nat caller" where
  "scripted rs c argv = (if c < length rs then Returned (rs ! c) else Returned JInvalid)"

text \<open>
  The matcher of the commas in \<open>a,b,c,d\<close>, and its matches.
\<close>

definition commas :: "nat caller" where
  "commas = scripted [resultObj '','' (Finite 1) (Finite 2) [] 1,
     resultObj '','' (Finite 3) (Finite 4) [] 2, resultObj '','' (Finite 5) (Finite 6) [] 3]"

definition comma :: "64 word \<Rightarrow> match" where
  "comma i = \<lparr>mvalue = '','', indexes = (i, i + 1), groups = []\<rparr>"

text \<open>
  A matcher whose second result has no field \<open>groups\<close>.
\<close>

definition noGroups :: "nat caller" where
  "noGroups = scripted [resultObj '','' (Finite 1) (Finite 2) [] 1,
     JMap [(''match'', JString '',''), (''start'', JNumber (Finite 3)), (''end'', JNumber (Finite 4)),
           (''next'', JCallable 2)]]"

text \<open>
  A matcher whose only match starts at 5 and ends at 2.
\<close>

definition backwards :: "nat caller" where
  "backwards = scripted [resultObj ''x'' (Finite 5) (Finite 2) [] 1]"

text \<open>
  A matcher with the spans \<open>[2,4)\<close> and \<open>[10,12)\<close>.
\<close>

definition twoSpans :: "nat caller" where
  "twoSpans = scripted [resultObj ''cd'' (Finite 2) (Finite 4) [] 1,
     resultObj ''kl'' (Finite 10) (Finite 12) [] 2]"

text \<open>
  The replacement text that \<^verbatim>\<open>replaceMatchFunc\<close> computes for a match, as a function
  of the replacement argument.
\<close>

definition replText :: "'c caller \<Rightarrow> 'c StringCallable \<Rightarrow> match \<Rightarrow> error + string" where
  "replText call repl m =
     (case repl of
        SCString r \<Rightarrow> replacement call None r (ContainsRune r (CHR ''$'')) m
      | SCCallable g \<Rightarrow> replacement call (Some g) [] False m
      | SCOther \<Rightarrow> Inl ErrReplaceArg)"

text \<open>
  A subject of 20 characters.
\<close>

definition subject20 :: string where
  "subject20 = ''abcdefghijklmnopqrst''"

text \<open>
  A match without groups.
\<close>

definition span :: "string \<Rightarrow> 64 word \<Rightarrow> 64 word \<Rightarrow> match" where
  "span v a b = \<lparr>mvalue = v, indexes = (a, b), groups = []\<rparr>"

text \<open>
  The ordinary substitution of the specification for a literal pattern: the text is read
  from the left; where an instance of \<open>old\<close> starts, \<open>new\<close> is written and the reading
  goes on after the instance; otherwise one character is copied. With the bound
  \<open>Some k\<close> at most \<open>k\<close> instances are replaced, with \<open>None\<close> every instance found.
\<close>

function substitute :: "string \<Rightarrow> string \<Rightarrow> nat option \<Rightarrow> string \<Rightarrow> string" where
  "substitute old new bound s =
     (if old = [] \<or> bound = Some 0 \<or> s = [] then s
      else if take (length old) s = old
      then new @ substitute old new (map_option (\<lambda>k. k - 1) bound) (drop (length old) s)
      else hd s # substitute old new bound (tl s))"
  by pat_completeness auto
termination
  by (relation "measure (\<lambda>(old, new, bound, s). length s)") (auto simp: Suc_le_eq)

declare substitute.simps [simp del]

section \<open>Properties of the token expander\<close>

lemma emit_simps [simp]:
  "emit out (Inl e) = Inl e" "emit out (Inr t) = Inr (out @ t)"
  by (simp_all add: emit_def)

lemma emit_emit: "emit a (emit b r) = emit (a @ b) r"
  by (cases r) simp_all

lemma emit_Nil [simp]: "emit [] r = r"
  by (cases r) simp_all

lemma length_runesToNumbers [simp]: "length (runesToNumbers ds) = length ds"
  by (simp add: runesToNumbers_def)

lemma expandLoop_None: "IndexRune s (CHR ''$'') = None \<Longrightarrow> expandLoop s m acc = Inr (acc @ s)"
  by (subst expandLoop.simps) simp

lemma expandLoop_end:
  "IndexRune s (CHR ''$'') = Some pos \<Longrightarrow> drop (Suc pos) s = [] \<Longrightarrow>
   expandLoop s m acc = Inr (acc @ take pos s @ ''$'')"
  by (subst expandLoop.simps) simp

lemma expandLoop_token:
  "IndexRune s (CHR ''$'') = Some pos \<Longrightarrow> drop (Suc pos) s \<noteq> [] \<Longrightarrow>
   expandLoop s m acc =
     (case token (drop (Suc pos) s) m of
        Inl e \<Rightarrow> Inl e
      | Inr (out, rest) \<Rightarrow> expandLoop rest m (acc @ take pos s @ out))"
  by (subst expandLoop.simps)
     (simp add: token_def Let_def split: option.splits sum.splits prod.splits)

lemma token_length: "s1 \<noteq> [] \<Longrightarrow> token s1 m = Inr (out, rest) \<Longrightarrow> length rest \<le> length s1"
  by (auto simp: token_def split: if_splits option.splits sum.splits prod.splits)

lemma expandLoop_acc: "expandLoop s m acc = emit acc (expandLoop s m [])"
proof (induction s arbitrary: acc rule: length_induct)
  case (1 s)
  show ?case
  proof (cases "IndexRune s (CHR ''$'')")
    case None
    then show ?thesis by (simp add: expandLoop_None)
  next
    case (Some pos)
    show ?thesis
    proof (cases "drop (Suc pos) s = []")
      case True
      with Some show ?thesis by (simp add: expandLoop_end)
    next
      case False
      then have less: "length (drop (Suc pos) s) < length s" by simp
      show ?thesis
      proof (cases "token (drop (Suc pos) s) m")
        case (Inl e)
        with Some False show ?thesis by (simp add: expandLoop_token)
      next
        case (Inr p)
        obtain out rest where p: "p = (out, rest)" by (cases p)
        from token_length [OF False Inr [unfolded p]] less
        have "length rest < length s" by simp
        with "1.IH" have ih: "\<And>a. expandLoop rest m a = emit a (expandLoop rest m [])"
          by blast
        have "expandLoop s m acc = expandLoop rest m (acc @ take pos s @ out)"
          using Some False Inr p by (simp add: expandLoop_token)
        also have "\<dots> = emit (acc @ take pos s @ out) (expandLoop rest m [])"
          by (rule ih)
        also have "\<dots> = emit acc (emit (take pos s @ out) (expandLoop rest m []))"
          by (simp add: emit_emit)
        also have "emit (take pos s @ out) (expandLoop rest m []) = expandLoop rest m (take pos s @ out)"
          by (rule ih [symmetric])
        also have "\<dots> = expandLoop s m []"
          using Some False Inr p by (simp add: expandLoop_token)
        finally show ?thesis .
      qed
    qed
  qed
qed

lemma IndexRune_append: "c \<notin> set pre \<Longrightarrow> IndexRune (pre @ c # rest) c = Some (length pre)"
  by (induction pre) auto

lemma IndexRune_None: "c \<notin> set s \<Longrightarrow> IndexRune s c = None"
  by (induction s) auto

lemma expand_dollar:
  assumes "CHR ''$'' \<notin> set pre"
  shows "expandReplaceString (pre @ CHR ''$'' # s1) m =
     (if s1 = [] then Inr (pre @ ''$'')
      else case token s1 m of
             Inl e \<Rightarrow> Inl e
           | Inr (out, rest) \<Rightarrow> emit (pre @ out) (expandReplaceString rest m))"
proof -
  have i: "IndexRune (pre @ CHR ''$'' # s1) (CHR ''$'') = Some (length pre)"
    using assms by (rule IndexRune_append)
  show ?thesis
  proof (cases "s1 = []")
    case True
    with i show ?thesis by (simp add: expandReplaceString_def expandLoop_end)
  next
    case False
    with i show ?thesis
      by (simp add: expandReplaceString_def expandLoop_token expandLoop_acc [of _ _ "pre @ _"]
               split: sum.splits prod.splits)
  qed
qed

lemma expand_plain: "CHR ''$'' \<notin> set s \<Longrightarrow> expandReplaceString s m = Inr s"
  by (simp add: expandReplaceString_def expandLoop_None IndexRune_None)


lemma token_dollar: "token (CHR ''$'' # rest) m = Inr (''$'', rest)"
  by (simp add: token_def)

lemma token_zero: "token (CHR ''0'' # rest) m = Inr (mvalue m, rest)"
  by (simp add: token_def isDigit_def)

lemma token_other:
  "c \<noteq> CHR ''$'' \<Longrightarrow> \<not> isDigit c \<Longrightarrow> token (c # rest) m = Inr (''$'', c # rest)"
  by (simp add: token_def)


text \<open>
  Claim C9. In a replacement string, \<open>$$\<close> gives one \<open>$\<close> and takes two characters;
  \<open>$0\<close> gives the matched text; a \<open>$\<close> followed by a character that is neither a digit
  nor \<open>$\<close> gives a \<open>$\<close> and leaves that character to be read next; a \<open>$\<close> at the end
  gives a \<open>$\<close>; text without \<open>$\<close> is copied. Here \<open>pre\<close> is any text without a \<open>$\<close>,
  so the token shown is the first one to be read, and the text after the token is expanded
  in the same way. The three examples of the specification hold: \<open>$0-$1\<close> with the matched
  text \<open>X\<close> and the group \<open>Y\<close> gives \<open>X-Y\<close>, \<open>$$1\<close> gives \<open>$1\<close> for every match, and
  \<open>a$\<close> gives \<open>a$\<close>.
\<close>

theorem expand_literal_tokens:
  "(CHR ''$'' \<notin> set pre \<longrightarrow>
      expandReplaceString (pre @ ''$$'' @ rest) m = emit (pre @ ''$'') (expandReplaceString rest m))
   \<and> (CHR ''$'' \<notin> set pre \<longrightarrow>
      expandReplaceString (pre @ ''$0'' @ rest) m = emit (pre @ mvalue m) (expandReplaceString rest m))
   \<and> (CHR ''$'' \<notin> set pre \<and> c \<noteq> CHR ''$'' \<and> \<not> isDigit c \<longrightarrow>
      expandReplaceString (pre @ ''$'' @ c # rest) m
        = emit (pre @ ''$'') (expandReplaceString (c # rest) m))
   \<and> (CHR ''$'' \<notin> set pre \<longrightarrow> expandReplaceString (pre @ ''$'') m = Inr (pre @ ''$''))
   \<and> (CHR ''$'' \<notin> set pre \<longrightarrow> expandReplaceString pre m = Inr pre)
   \<and> expandReplaceString ''$0-$1'' \<lparr>mvalue = ''X'', indexes = ix, groups = [''Y'']\<rparr> = Inr ''X-Y''
   \<and> expandReplaceString ''$$1'' m = Inr ''$1''
   \<and> expandReplaceString ''a$'' m = Inr ''a$''"
proof (intro conjI impI)
  assume pre: "CHR ''$'' \<notin> set pre"
  from pre show "expandReplaceString (pre @ ''$$'' @ rest) m
      = emit (pre @ ''$'') (expandReplaceString rest m)"
    using expand_dollar [OF pre, of "CHR ''$'' # rest" m] by (simp add: token_dollar)
  from pre show "expandReplaceString (pre @ ''$0'' @ rest) m
      = emit (pre @ mvalue m) (expandReplaceString rest m)"
    using expand_dollar [OF pre, of "CHR ''0'' # rest" m] by (simp add: token_zero)
  from pre show "expandReplaceString (pre @ ''$'') m = Inr (pre @ ''$'')"
    using expand_dollar [OF pre, of "[]" m] by simp
  from pre show "expandReplaceString pre m = Inr pre"
    by (rule expand_plain)
next
  assume a: "CHR ''$'' \<notin> set pre \<and> c \<noteq> CHR ''$'' \<and> \<not> isDigit c"
  then have pre: "CHR ''$'' \<notin> set pre" by simp
  from a show "expandReplaceString (pre @ ''$'' @ c # rest) m
      = emit (pre @ ''$'') (expandReplaceString (c # rest) m)"
    using expand_dollar [OF pre, of "c # rest" m] by (simp add: token_other)
next
  show "expandReplaceString ''$0-$1'' \<lparr>mvalue = ''X'', indexes = ix, groups = [''Y'']\<rparr> = Inr ''X-Y''"
    by (simp add: expandReplaceString_def expandLoop.simps isDigit_def runesToNumbers_def digitVal_def)
  show "expandReplaceString ''$$1'' m = Inr ''$1''"
    by (simp add: expandReplaceString_def expandLoop.simps)
  show "expandReplaceString ''a$'' m = Inr ''a$''"
    by (simp add: expandReplaceString_def expandLoop.simps)
qed

theorem expand_literal_tokens_witness:
  "CHR ''$'' \<notin> set ''ab'' \<and> CHR ''-'' \<noteq> CHR ''$'' \<and> \<not> isDigit (CHR ''-'')
   \<and> expandReplaceString ''ab$$cd'' \<lparr>mvalue = ''X'', indexes = (0, 1), groups = [''Y'']\<rparr> = Inr ''ab$cd''
   \<and> expandReplaceString ''ab$0cd'' \<lparr>mvalue = ''X'', indexes = (0, 1), groups = [''Y'']\<rparr> = Inr ''abXcd''
   \<and> expandReplaceString ''ab$-cd'' \<lparr>mvalue = ''X'', indexes = (0, 1), groups = [''Y'']\<rparr> = Inr ''ab$-cd''
   \<and> expandReplaceString ''ab$'' \<lparr>mvalue = ''X'', indexes = (0, 1), groups = [''Y'']\<rparr> = Inr ''ab$''
   \<and> expandReplaceString ''ab'' \<lparr>mvalue = ''X'', indexes = (0, 1), groups = [''Y'']\<rparr> = Inr ''ab''"
proof -
  let ?m = "\<lparr>mvalue = ''X'', indexes = (0, 1), groups = [''Y'']\<rparr>"
  have h: "CHR ''$'' \<notin> set ''ab''" "CHR ''-'' \<noteq> CHR ''$''" "\<not> isDigit (CHR ''-'')"
    by (simp_all add: isDigit_def)
  have r: "expandReplaceString ''cd'' ?m = Inr ''cd''" "expandReplaceString ''-cd'' ?m = Inr ''-cd''"
    by (simp_all add: expand_plain)
  from expand_literal_tokens [of "''ab''" "''cd''" ?m "CHR ''-''" "(0, 1)"] h r
  show ?thesis by simp
qed

lemma foldl_digits_word:
  "foldl (\<lambda>n r. n * 10 + digitVal r) (word_of_nat a) ds
     = (word_of_nat (foldl (\<lambda>n r. n * 10 + (of_char r - 48)) a ds) :: 64 word)"
proof (induction ds arbitrary: a)
  case Nil
  show ?case by simp
next
  case (Cons d ds)
  have "word_of_nat a * 10 + digitVal d = (word_of_nat (a * 10 + (of_char d - 48)) :: 64 word)"
    by (simp add: digitVal_def)
  then show ?case
    using Cons.IH [of "a * 10 + (of_char d - 48)"] by simp
qed

lemma runesToNumbers_nth:
  "i < length ds \<Longrightarrow> runesToNumbers ds ! i = word_of_nat (decimal (take (Suc i) ds))"
  using foldl_digits_word [of 0] by (simp add: runesToNumbers_def decimal_def)

lemma decimal_snoc: "decimal (ds @ [d]) = decimal ds * 10 + (of_char d - 48)"
  by (simp add: decimal_def)

lemma decimal_append_le: "decimal xs \<le> decimal (xs @ ys)"
proof (induction ys rule: rev_induct)
  case Nil
  show ?case by simp
next
  case (snoc y ys)
  have "decimal xs \<le> decimal (xs @ ys)" by (rule snoc.IH)
  also have "\<dots> \<le> decimal ((xs @ ys) @ [y])"
    unfolding decimal_snoc by simp
  finally show ?case by simp
qed

lemma decimal_take_le: "decimal (take k ds) \<le> decimal ds"
  using decimal_append_le [of "take k ds" "drop k ds"] by simp

lemma decimal_pos:
  assumes "ds \<noteq> []" "isDigit (hd ds)" "hd ds \<noteq> CHR ''0''" "0 < k"
  shows "0 < decimal (take k ds)"
proof -
  from assms obtain d rest where ds: "ds = d # rest" by (cases ds) auto
  from assms obtain j where k: "k = Suc j" by (cases k) auto
  have "of_char d \<noteq> (48::nat)"
  proof
    assume "of_char d = (48::nat)"
    then have "(of_char d :: nat) = of_char (CHR ''0'')" by simp
    then have "d = CHR ''0''" by (simp only: of_char_eq_iff)
    with assms ds show False by simp
  qed
  with assms ds have "0 < decimal [d]"
    by (simp add: decimal_def isDigit_def)
  also have "\<dots> \<le> decimal ([d] @ take j rest)" by (rule decimal_append_le)
  finally show ?thesis by (simp add: ds k)
qed

lemma sint_pred_word:
  assumes "0 < v" "v < 2 ^ 63"
  shows "sint (word_of_nat v - 1 :: 64 word) = int v - 1"
proof -
  from assms obtain u where v: "v = Suc u" by (cases v) auto
  have "(word_of_nat v - 1 :: 64 word) = word_of_nat u" by (simp add: v)
  moreover have "sint (word_of_nat u :: 64 word) = int u"
    using assms v by (simp add: signed_of_nat signed_take_bit_int_eq_self)
  ultimately show ?thesis by (simp add: v)
qed


lemma pickGroup_step:
  assumes "run \<noteq> []" "isDigit (hd run)" "hd run \<noteq> CHR ''0''" "decimal run < 2 ^ 63"
    and "i < length run"
  shows "pickGroup (runesToNumbers run) gs (Suc i) =
     (if names_group run gs (Suc i)
      then Some (Inr (gs ! (decimal (take (Suc i) run) - 1), Suc i))
      else pickGroup (runesToNumbers run) gs i)"
proof -
  let ?v = "decimal (take (Suc i) run)"
  have pos: "0 < ?v" using assms by (intro decimal_pos) simp_all
  have "?v \<le> decimal run" by (rule decimal_take_le)
  with assms have small: "?v < 2 ^ 63" by simp
  have s: "sint (runesToNumbers run ! i - 1) = int ?v - 1"
    using assms pos small by (simp add: runesToNumbers_nth sint_pred_word)
  from pos have "nat (int ?v - 1) = ?v - 1" by simp
  with pos show ?thesis
    by (auto simp: s names_group_def Let_def)
qed

lemma pickGroup_miss:
  assumes "run \<noteq> []" "isDigit (hd run)" "hd run \<noteq> CHR ''0''" "decimal run < 2 ^ 63"
  shows "k \<le> length run \<Longrightarrow> (\<forall>j. 0 < j \<and> j \<le> k \<longrightarrow> \<not> names_group run gs j)
    \<Longrightarrow> pickGroup (runesToNumbers run) gs k = None"
proof (induction k)
  case 0
  show ?case by simp
next
  case (Suc k)
  then have "\<not> names_group run gs (Suc k)" by simp
  with Suc show ?case
    by (simp add: pickGroup_step [OF assms] del: pickGroup.simps)
qed

lemma pickGroup_hit:
  assumes "run \<noteq> []" "isDigit (hd run)" "hd run \<noteq> CHR ''0''" "decimal run < 2 ^ 63"
  shows "n \<le> length run \<Longrightarrow> 0 < k \<Longrightarrow> k \<le> n \<Longrightarrow> names_group run gs k
    \<Longrightarrow> (\<forall>j. k < j \<and> j \<le> n \<longrightarrow> \<not> names_group run gs j)
    \<Longrightarrow> pickGroup (runesToNumbers run) gs n
          = Some (Inr (gs ! (decimal (take k run) - 1), k))"
proof (induction n)
  case 0
  then show ?case by simp
next
  case (Suc n)
  show ?case
  proof (cases "k = Suc n")
    case True
    with Suc.prems show ?thesis
      by (simp add: pickGroup_step [OF assms] del: pickGroup.simps)
  next
    case False
    with Suc.prems have "k \<le> n" "\<not> names_group run gs (Suc n)" by simp_all
    with Suc show ?thesis
      by (simp add: pickGroup_step [OF assms] del: pickGroup.simps)
  qed
qed


lemma token_digits:
  assumes "run \<noteq> []" "list_all isDigit run" "hd run \<noteq> CHR ''0''"
    and "rest = [] \<or> \<not> isDigit (hd rest)"
  shows "token (run @ rest) m =
     (case pickGroup (runesToNumbers run) (groups m) (length run) of
        Some (Inl e) \<Rightarrow> Inl e
      | Some (Inr (g, k)) \<Rightarrow> Inr (g, drop k (run @ rest))
      | None \<Rightarrow> Inr ([], tl run @ rest))"
proof -
  from assms have tw: "takeWhile isDigit (run @ rest) = run"
    by (cases rest) (auto simp: list_all_iff takeWhile_append2 [of run isDigit])
  from assms have h: "hd (run @ rest) = hd run" "tl (run @ rest) = tl run @ rest"
    by simp_all
  from assms have d: "isDigit (hd run)" by (cases run) simp_all
  have "hd run \<noteq> CHR ''$''"
  proof
    assume "hd run = CHR ''$''"
    with d show False by (simp add: isDigit_def)
  qed
  with d assms(3) show ?thesis
    unfolding token_def tw h by simp
qed

text \<open>
  Claim C3, as amended. A \<open>$\<close> is followed by a run of decimal digits that does not start
  with \<open>0\<close>, ends where the digits end, and denotes a number below \<open>2^63\<close>. The prefixes
  of the run are tried from the longest to the shortest; the longest prefix that names a
  group is taken: its digits are consumed and the group is emitted. When no prefix names
  a group, nothing is emitted: the \<open>$\<close> and the first digit of the run are dropped, and
  the other digits of the run are read on as ordinary text.
\<close>

theorem expand_group_reference:
  assumes "CHR ''$'' \<notin> set pre" "run \<noteq> []" "list_all isDigit run" "hd run \<noteq> CHR ''0''"
    and "rest = [] \<or> \<not> isDigit (hd rest)" "decimal run < 2 ^ 63"
  shows "(0 < k \<and> k \<le> length run \<and> names_group run (groups m) k
          \<and> (\<forall>j. k < j \<and> j \<le> length run \<longrightarrow> \<not> names_group run (groups m) j)
        \<longrightarrow> expandReplaceString (pre @ ''$'' @ run @ rest) m
            = emit (pre @ groups m ! (decimal (take k run) - 1))
                (expandReplaceString (drop k run @ rest) m))
     \<and> ((\<forall>j. 0 < j \<and> j \<le> length run \<longrightarrow> \<not> names_group run (groups m) j)
        \<longrightarrow> expandReplaceString (pre @ ''$'' @ run @ rest) m
            = emit pre (expandReplaceString (tl run @ rest) m))"
proof (intro conjI impI)
  have hd: "isDigit (hd run)" using assms by (cases run) simp_all
  note facts = \<open>run \<noteq> []\<close> hd \<open>hd run \<noteq> CHR ''0''\<close> \<open>decimal run < 2 ^ 63\<close>
  have tok: "token (run @ rest) m =
     (case pickGroup (runesToNumbers run) (groups m) (length run) of
        Some (Inl e) \<Rightarrow> Inl e
      | Some (Inr (g, k)) \<Rightarrow> Inr (g, drop k (run @ rest))
      | None \<Rightarrow> Inr ([], tl run @ rest))"
    using assms(2-5) by (rule token_digits)
  {
    assume a: "0 < k \<and> k \<le> length run \<and> names_group run (groups m) k
          \<and> (\<forall>j. k < j \<and> j \<le> length run \<longrightarrow> \<not> names_group run (groups m) j)"
    then have "pickGroup (runesToNumbers run) (groups m) (length run)
        = Some (Inr (groups m ! (decimal (take k run) - 1), k))"
      by (intro pickGroup_hit [OF facts]) simp_all
    with a have "token (run @ rest) m
        = Inr (groups m ! (decimal (take k run) - 1), drop k run @ rest)"
      by (simp add: tok)
    with assms(2) show "expandReplaceString (pre @ ''$'' @ run @ rest) m
            = emit (pre @ groups m ! (decimal (take k run) - 1))
                (expandReplaceString (drop k run @ rest) m)"
      using expand_dollar [OF assms(1), of "run @ rest" m] by simp
  }
  {
    assume "\<forall>j. 0 < j \<and> j \<le> length run \<longrightarrow> \<not> names_group run (groups m) j"
    then have "pickGroup (runesToNumbers run) (groups m) (length run) = None"
      by (intro pickGroup_miss [OF facts]) simp_all
    then have "token (run @ rest) m = Inr ([], tl run @ rest)"
      by (simp add: tok)
    with assms(2) show "expandReplaceString (pre @ ''$'' @ run @ rest) m
            = emit pre (expandReplaceString (tl run @ rest) m)"
      using expand_dollar [OF assms(1), of "run @ rest" m] by simp
  }
qed

theorem expand_group_reference_witness:
  "CHR ''$'' \<notin> set ''a'' \<and> list_all isDigit ''12'' \<and> decimal ''12'' < 2 ^ 63
   \<and> names_group ''12'' [''Y''] 1 \<and> \<not> names_group ''12'' [''Y''] 2
   \<and> expandReplaceString ''a$12b'' \<lparr>mvalue = ''X'', indexes = (0, 1), groups = [''Y'']\<rparr> = Inr ''aY2b''
   \<and> list_all isDigit ''55'' \<and> decimal ''55'' < 2 ^ 63
   \<and> \<not> names_group ''55'' [''Y''] 1 \<and> \<not> names_group ''55'' [''Y''] 2
   \<and> expandReplaceString ''a$55b'' \<lparr>mvalue = ''X'', indexes = (0, 1), groups = [''Y'']\<rparr> = Inr ''a5b''"
proof -
  let ?m = "\<lparr>mvalue = ''X'', indexes = (0, 1), groups = [''Y'']\<rparr>"
  have h: "CHR ''$'' \<notin> set ''a''" "''12'' \<noteq> []" "list_all isDigit ''12''"
    "hd ''12'' \<noteq> CHR ''0''" "''b'' = [] \<or> \<not> isDigit (hd ''b'')" "decimal ''12'' < 2 ^ 63"
    by (simp_all add: isDigit_def decimal_def)
  have g: "names_group ''12'' [''Y''] 1" "\<not> names_group ''12'' [''Y''] 2"
    by (simp_all add: names_group_def decimal_def)
  have "\<forall>j. 1 < j \<and> j \<le> length ''12'' \<longrightarrow> \<not> names_group ''12'' [''Y''] j"
  proof (intro allI impI)
    fix j :: nat
    assume "1 < j \<and> j \<le> length ''12''"
    then have "j = 2" by simp
    with g show "\<not> names_group ''12'' [''Y''] j" by simp
  qed
  with g have "expandReplaceString (''a'' @ ''$'' @ ''12'' @ ''b'') ?m
      = emit (''a'' @ [''Y''] ! (decimal (take 1 ''12'') - 1))
          (expandReplaceString (drop 1 ''12'' @ ''b'') ?m)"
    using expand_group_reference [OF h, of 1 ?m] by simp
  then have hit: "expandReplaceString ''a$12b'' ?m = Inr ''aY2b''"
    by (simp add: decimal_def expand_plain)
  have h': "CHR ''$'' \<notin> set ''a''" "''55'' \<noteq> []" "list_all isDigit ''55''"
    "hd ''55'' \<noteq> CHR ''0''" "''b'' = [] \<or> \<not> isDigit (hd ''b'')" "decimal ''55'' < 2 ^ 63"
    by (simp_all add: isDigit_def decimal_def)
  have g': "\<not> names_group ''55'' [''Y''] 1" "\<not> names_group ''55'' [''Y''] 2"
    by (simp_all add: names_group_def decimal_def)
  have "\<forall>j. 0 < j \<and> j \<le> length ''55'' \<longrightarrow> \<not> names_group ''55'' [''Y''] j"
  proof (intro allI impI)
    fix j :: nat
    assume "0 < j \<and> j \<le> length ''55''"
    then have "j = 1 \<or> j = 2" by auto
    with g' show "\<not> names_group ''55'' [''Y''] j" by auto
  qed
  then have "expandReplaceString (''a'' @ ''$'' @ ''55'' @ ''b'') ?m
      = emit ''a'' (expandReplaceString (tl ''55'' @ ''b'') ?m)"
    using expand_group_reference [OF h', of 1 ?m] by simp
  then have miss: "expandReplaceString ''a$55b'' ?m = Inr ''a5b''"
    by (simp add: expand_plain)
  from h g hit h' g' miss show ?thesis by simp
qed

text \<open>
  The claim as first stated fails on the replacement \<open>$5\<close> for a match with one group:
  the result is the empty string and not \<open>$5\<close>.
\<close>

theorem expand_invalid_reference_counterexample:
  "expandReplaceString ''$5'' \<lparr>mvalue = ''X'', indexes = (0, 1), groups = [''Y'']\<rparr> = Inr []
   \<and> expandReplaceString ''$5'' \<lparr>mvalue = ''X'', indexes = (0, 1), groups = [''Y'']\<rparr> \<noteq> Inr ''$5''"
  by (simp add: expandReplaceString_def expandLoop.simps isDigit_def runesToNumbers_def digitVal_def)

text \<open>
  A run of digits that denotes a number beyond the 64-bit integers wraps around; here the
  index becomes negative and the read from the groups panics.
\<close>

lemma expand_overflow_panics:
  "expandReplaceString ''$9999999999999999999'' \<lparr>mvalue = ''X'', indexes = (0, 1), groups = [''Y'']\<rparr>
     = Inl PanicIndex"
  by (simp add: expandReplaceString_def expandLoop.simps isDigit_def runesToNumbers_def digitVal_def)

section \<open>Properties of the matcher protocol driver\<close>

lemma IsString_iff: "IsString = isStringValue"
  by (rule ext) (simp add: IsString_def AsString_def isStringValue_def split: jvalue.splits)

lemma field_string:
  "(AsString (MapIndex (JMap kvs) k) = None) = (\<not> hasField kvs k isStringValue)"
  by (simp add: AsString_def MapIndex_def hasField_def isStringValue_def
        split: option.splits jvalue.splits)

lemma field_number:
  "(AsNumber (MapIndex (JMap kvs) k) = None) = (\<not> hasField kvs k isNumberValue)"
  by (simp add: AsNumber_def MapIndex_def hasField_def isNumberValue_def
        split: option.splits jvalue.splits)

lemma field_callable:
  "(AsCallable (MapIndex (JMap kvs) k) = None) = (\<not> hasField kvs k isCallableValue)"
  by (simp add: AsCallable_def MapIndex_def hasField_def isCallableValue_def
        split: option.splits jvalue.splits)

lemma field_strings:
  "IsArrayOf (MapIndex (JMap kvs) k) IsString = hasField kvs k isStringArray"
  by (simp add: IsArrayOf_def MapIndex_def hasField_def isStringArray_def IsString_iff
        split: option.splits jvalue.splits)

lemma matchResult_malformed: "\<not> wellFormedResult res \<Longrightarrow> \<exists>e. matchResult res = Inl e"
proof (cases "IsMap res")
  case False
  then show ?thesis by (simp add: matchResult_def)
next
  case True
  then obtain kvs where res: "res = JMap kvs"
    by (cases res) (simp_all add: IsMap_def)
  assume "\<not> wellFormedResult res"
  then have w: "\<not> hasField kvs ''match'' isStringValue \<or> \<not> hasField kvs ''start'' isNumberValue
      \<or> \<not> hasField kvs ''end'' isNumberValue \<or> \<not> hasField kvs ''groups'' isStringArray
      \<or> \<not> hasField kvs ''next'' isCallableValue"
    by (simp add: wellFormedResult_def res)
  show ?thesis
  proof (cases "AsString (MapIndex res ''match'')")
    case None
    with True show ?thesis by (simp add: matchResult_def)
  next
    case m: (Some v)
    show ?thesis
    proof (cases "AsNumber (MapIndex res ''start'')")
      case None
      with True m show ?thesis by (simp add: matchResult_def)
    next
      case a: (Some x)
      show ?thesis
      proof (cases "AsNumber (MapIndex res ''end'')")
        case None
        with True m a show ?thesis by (simp add: matchResult_def)
      next
        case b: (Some y)
        show ?thesis
        proof (cases "IsArrayOf (MapIndex res ''groups'') IsString")
          case False
          with True m a b show ?thesis by (simp add: matchResult_def)
        next
          case g: True
          from m a b g w have "AsCallable (MapIndex res ''next'') = None"
            unfolding res field_string [symmetric] field_number [symmetric]
              field_callable [symmetric] field_strings [symmetric]
            by simp
          with True m a b g show ?thesis by (simp add: matchResult_def)
        qed
      qed
    qed
  qed
qed

lemma matchResult_wellFormed: "wellFormedResult res \<Longrightarrow> \<exists>m nxt. matchResult res = Inr (m, nxt)"
proof -
  assume w: "wellFormedResult res"
  then obtain kvs where res: "res = JMap kvs"
    by (cases res) (simp_all add: wellFormedResult_def)
  from w have f: "hasField kvs ''match'' isStringValue" "hasField kvs ''start'' isNumberValue"
    "hasField kvs ''end'' isNumberValue" "hasField kvs ''groups'' isStringArray"
    "hasField kvs ''next'' isCallableValue"
    by (simp_all add: wellFormedResult_def res)
  from f(1) field_string [of kvs "''match''"]
  obtain v where "AsString (MapIndex res ''match'') = Some v"
    unfolding res by (cases "AsString (MapIndex (JMap kvs) ''match'')") auto
  moreover from f(2) field_number [of kvs "''start''"]
  obtain x where "AsNumber (MapIndex res ''start'') = Some x"
    unfolding res by (cases "AsNumber (MapIndex (JMap kvs) ''start'')") auto
  moreover from f(3) field_number [of kvs "''end''"]
  obtain y where "AsNumber (MapIndex res ''end'') = Some y"
    unfolding res by (cases "AsNumber (MapIndex (JMap kvs) ''end'')") auto
  moreover from f(4) have "IsArrayOf (MapIndex res ''groups'') IsString"
    unfolding field_strings res .
  moreover from f(5) field_callable [of kvs "''next''"]
  obtain c where "AsCallable (MapIndex res ''next'') = Some c"
    unfolding res by (cases "AsCallable (MapIndex (JMap kvs) ''next'')") auto
  ultimately show ?thesis
    by (simp add: matchResult_def res IsMap_def)
qed

lemma callMatchFunc_yields:
  "yields call fn argv ms \<Longrightarrow>
   callMatchFunc call fn argv acc n = Some (Inr (acc @ ms), n + length ms + 1)"
proof (induction ms arbitrary: fn argv acc n)
  case Nil
  then show ?case
    by (subst callMatchFunc.simps) (simp split: called.splits)
next
  case (Cons m ms)
  from Cons.prems obtain res nxt where
    r: "call fn argv = Returned res" "IsValid res" "matchResult res = Inr (m, nxt)"
      "yields call nxt [] ms"
    by (auto split: called.splits sum.splits)
  have "callMatchFunc call fn argv acc n = callMatchFunc call nxt [] (acc @ [m]) (Suc n)"
    by (subst callMatchFunc.simps) (simp add: r)
  also have "\<dots> = Some (Inr ((acc @ [m]) @ ms), Suc n + length ms + 1)"
    using r(4) by (rule Cons.IH)
  finally show ?case by simp
qed

lemma callMatchFunc_violates:
  "violatesAfter call fn argv k \<Longrightarrow>
   \<exists>e. callMatchFunc call fn argv acc n = Some (Inl e, n + k + 1)"
proof (induction k arbitrary: fn argv acc n)
  case 0
  then obtain res where r: "call fn argv = Returned res" "IsValid res" "\<not> wellFormedResult res"
    by (auto split: called.splits)
  from matchResult_malformed [OF r(3)] obtain e where "matchResult res = Inl e" ..
  with r show ?case
    by (subst callMatchFunc.simps) simp
next
  case (Suc k)
  from Suc.prems obtain res m nxt where
    r: "call fn argv = Returned res" "IsValid res" "matchResult res = Inr (m, nxt)"
      "violatesAfter call nxt [] k"
    by (auto split: called.splits sum.splits)
  have "callMatchFunc call fn argv acc n = callMatchFunc call nxt [] (acc @ [m]) (Suc n)"
    by (subst callMatchFunc.simps) (simp add: r)
  moreover from Suc.IH [OF r(4)]
  obtain e where "callMatchFunc call nxt [] (acc @ [m]) (Suc n) = Some (Inl e, Suc n + k + 1)"
    by blast
  ultimately show ?case by simp
qed

lemma extractMatches_yields:
  "yields call fn [JString s] ms \<Longrightarrow>
   extractMatches call fn s limit =
     Some (Inr (if 0 \<le> limit \<and> limit < int (length ms) then take (nat limit) ms else ms),
           length ms + 1)"
  by (simp add: extractMatches_def callMatchFunc_yields)

lemma extractMatches_violates:
  "violatesAfter call fn [JString s] k \<Longrightarrow>
   \<exists>e. extractMatches call fn s limit = Some (Inl e, k + 1)"
  using callMatchFunc_violates [of call fn "[JString s]" k "[]" 0]
  by (auto simp: extractMatches_def)

lemma slice_sub: "0 \<le> lo \<Longrightarrow> lo \<le> hi \<Longrightarrow> hi \<le> int (length s) \<Longrightarrow> slice s lo hi = Inr (sub s lo hi)"
  by (simp add: slice_def sub_def)

lemma sub_append:
  assumes "0 \<le> a" "a \<le> b" "b \<le> c"
  shows "sub s a b @ sub s b c = sub s a c"
proof -
  have "nat (c - a) = nat (b - a) + nat (c - b)" using assms by simp
  moreover have "drop (nat (b - a)) (drop (nat a) s) = drop (nat b) s"
    using assms by (simp add: nat_diff_distrib add.commute)
  ultimately show ?thesis
    by (simp add: sub_def take_add)
qed

lemma sub_to_end: "0 \<le> a \<Longrightarrow> sub s a (int (length s)) = drop (nat a) s"
  by (simp add: sub_def)

lemma spansIn_le: "spansIn lo hi ms \<Longrightarrow> lo \<le> hi"
proof (induction ms arbitrary: lo)
  case Nil
  then show ?case by simp
next
  case (Cons m ms)
  then have "lo \<le> mend m" "mend m \<le> hi" by simp_all
  then show ?case by simp
qed

lemma splitLoop_segments:
  "(case splitLoop s ms p acc of
      Inl e \<Rightarrow> Inl e
    | Inr (parts, pos) \<Rightarrow>
        (case slice_from s pos of Inl e \<Rightarrow> Inl e | Inr rest \<Rightarrow> Inr (f (parts @ [rest]))))
   = (case segments s p ms of Inl e \<Rightarrow> Inl e | Inr segs \<Rightarrow> Inr (f (acc @ segs)))"
proof (induction ms arbitrary: p acc)
  case Nil
  show ?case by (simp split: sum.splits)
next
  case (Cons m ms)
  show ?case
  proof (cases "slice s p (mstart m)")
    case (Inl e)
    then show ?thesis by simp
  next
    case (Inr seg)
    then show ?thesis
      using Cons.IH [of "mend m" "acc @ [seg]"]
      by (simp split: sum.splits)
  qed
qed

lemma limitParts_firstN: "0 \<le> IntVal limit \<Longrightarrow> limitParts limit parts = firstN limit parts"
  by (simp add: limitParts_def firstN_def)

lemma Split_matcher:
  assumes "0 \<le> IntVal limit" "yields call fn [JString s] ms"
  shows "Split call s (SCCallable fn) limit =
     Some (case segments s 0 ms of Inl e \<Rightarrow> Inl e | Inr segs \<Rightarrow> Inr (firstN limit segs),
           length ms + 1)"
proof -
  have "extractMatches call fn s (- 1) = Some (Inr ms, length ms + 1)"
    using assms(2) by (simp add: extractMatches_yields)
  moreover have "(case splitLoop s ms 0 [] of
      Inl e \<Rightarrow> Inl e
    | Inr (parts, pos) \<Rightarrow>
        (case slice_from s pos of Inl e \<Rightarrow> Inl e | Inr rest \<Rightarrow> Inr (limitParts limit (parts @ [rest]))))
   = (case segments s 0 ms of Inl e \<Rightarrow> Inl e | Inr segs \<Rightarrow> Inr (limitParts limit ([] @ segs)))"
    by (rule splitLoop_segments)
  ultimately show ?thesis
    using assms(1)
    by (auto simp: Split_def limitParts_firstN split: sum.splits prod.splits)
qed

lemma segments_ok:
  "0 \<le> p \<Longrightarrow> spansIn p (int (length s)) ms \<Longrightarrow>
   \<exists>segs. segments s p ms = Inr segs \<and> length segs = length ms + 1
      \<and> rejoin segs (map (matchedText s) ms) = drop (nat p) s"
proof (induction ms arbitrary: p)
  case Nil
  then show ?case
    by (simp add: slice_from_def slice_sub sub_to_end)
next
  case (Cons m ms)
  let ?a = "mstart m" and ?b = "mend m"
  from Cons.prems have o: "0 \<le> p" "p \<le> ?a" "?a \<le> ?b" "spansIn ?b (int (length s)) ms"
    by simp_all
  then have b: "?b \<le> int (length s)" by (auto dest: spansIn_le)
  from o have "0 \<le> ?b" by simp
  from Cons.IH [OF this o(4)] obtain segs where
    segs: "segments s ?b ms = Inr segs" "length segs = length ms + 1"
      "rejoin segs (map (matchedText s) ms) = drop (nat ?b) s"
    by blast
  have sl: "slice s p ?a = Inr (sub s p ?a)"
    using o b by (intro slice_sub) simp_all
  have "sub s p ?a @ sub s ?a ?b @ sub s ?b (int (length s)) = sub s p (int (length s))"
    using o b by (simp add: sub_append)
  then have "sub s p ?a @ matchedText s m @ drop (nat ?b) s = drop (nat p) s"
    using o by (simp add: matchedText_def sub_to_end)
  with segs sl show ?case by simp
qed

lemma sub_take:
  "0 \<le> a \<Longrightarrow> b \<le> P \<Longrightarrow> sub (take (nat P) s) a b = sub s a b"
proof -
  assume a: "0 \<le> a" "b \<le> P"
  have "sub (take (nat P) s) a b = take (nat (b - a)) (take (nat P - nat a) (drop (nat a) s))"
    by (simp add: sub_def drop_take)
  also have "\<dots> = take (nat (b - a)) (drop (nat a) s)"
    using a by (simp add: min_def nat_diff_distrib nat_mono diff_le_mono)
  finally show ?thesis by (simp add: sub_def)
qed

lemma sub_take_end:
  "0 \<le> a \<Longrightarrow> a \<le> P \<Longrightarrow> P \<le> int (length s) \<Longrightarrow>
   sub (take (nat P) s) a (int (length (take (nat P) s))) = sub s a P"
proof -
  assume a: "0 \<le> a" "a \<le> P" "P \<le> int (length s)"
  then have "int (length (take (nat P) s)) = P" by simp
  then show ?thesis using a by (simp only: sub_take [OF a(1) order_refl])
qed

lemma splice_snoc:
  "0 \<le> p \<Longrightarrow> spansIn p (mstart m) fs \<Longrightarrow> mstart m \<le> mend m \<Longrightarrow>
   mend m \<le> int (length u) \<Longrightarrow>
   splice t u p (fs @ [m]) =
     splice t (take (nat (mstart m)) u) p fs @ t m @ sub u (mend m) (int (length u))"
proof (induction fs arbitrary: p)
  case Nil
  then have "0 \<le> p" "p \<le> mstart m" "mstart m \<le> int (length u)" by simp_all
  then have "sub (take (nat (mstart m)) u) p
      (int (length (take (nat (mstart m)) u))) = sub u p (mstart m)"
    by (rule sub_take_end)
  then show ?case by (simp only: append_Nil splice.simps)
next
  case (Cons f fs)
  let ?X = "mstart m"
  from Cons.prems have o: "p \<le> mstart f" "mstart f \<le> mend f"
    "spansIn (mend f) ?X fs" by simp_all
  then have "mend f \<le> ?X" by (auto dest: spansIn_le)
  with o have le: "mstart f \<le> ?X" by simp
  from o Cons.prems have "0 \<le> mend f" by simp
  from Cons.IH [OF this o(3) Cons.prems(3,4)]
  have ih: "splice t u (mend f) (fs @ [m]) =
     splice t (take (nat ?X) u) (mend f) fs @ t m @ sub u (mend m) (int (length u))" .
  have "sub (take (nat ?X) u) p (mstart f) = sub u p (mstart f)"
    using Cons.prems(1) le by (rule sub_take)
  with ih show ?case by simp
qed

lemma slice_to_take:
  "0 \<le> x \<Longrightarrow> x \<le> P \<Longrightarrow> P \<le> int (length s) \<Longrightarrow>
   slice_to (take (nat P) s @ tail) x = Inr (take (nat x) s)"
  by (simp add: slice_to_def slice_def min_def nat_le_iff)

lemma slice_from_take:
  assumes "0 \<le> y" "y \<le> P" "P \<le> int (length s)"
  shows "slice_from (take (nat P) s @ tail) y = Inr (sub s y P @ tail)"
proof -
  let ?src = "take (nat P) s @ tail"
  have l: "length (take (nat P) s) = nat P" using assms by simp
  have "drop (nat y) (take (nat P) s) = sub s y P"
    using assms by (simp add: sub_def drop_take nat_diff_distrib)
  with assms l have d: "drop (nat y) ?src = sub s y P @ tail" by simp
  have "y \<le> int (length ?src)" using assms l by simp
  with assms have "slice_from ?src y = Inr (take (nat (int (length ?src) - y)) (drop (nat y) ?src))"
    by (simp add: slice_from_def slice_def)
  also have "take (nat (int (length ?src) - y)) (drop (nat y) ?src) = drop (nat y) ?src"
  proof (rule take_all)
    have "nat (int (length ?src) - y) = length ?src - nat y"
      using assms(1) by (simp only: nat_diff_distrib nat_int of_nat_0_le_iff \<open>y \<le> int (length ?src)\<close>)
    then show "length (drop (nat y) ?src) \<le> nat (int (length ?src) - y)"
      by (simp only: length_drop order_refl)
  qed
  finally show ?thesis by (simp only: d)
qed

lemma sub_whole: "sub u 0 (int (length u)) = u"
  by (simp add: sub_def)

lemma replaceLoop_splice:
  "spansIn 0 P ms \<Longrightarrow> P \<le> int (length s) \<Longrightarrow> (\<forall>m\<in>set ms. r m = Inr (t m)) \<Longrightarrow>
   replaceLoop r (take (nat P) s @ tail) (rev ms) = Inr (splice t (take (nat P) s) 0 ms @ tail)"
proof (induction ms arbitrary: P tail rule: rev_induct)
  case Nil
  show ?case by (simp only: rev.simps replaceLoop.simps splice.simps sub_whole)
next
  case (snoc m fs)
  let ?a = "mstart m" and ?b = "mend m"
  have sp: "\<And>lo hi. spansIn lo hi (fs @ [m]) \<Longrightarrow> spansIn lo ?a fs \<and> ?a \<le> ?b \<and> ?b \<le> hi"
  proof -
    fix lo hi show "spansIn lo hi (fs @ [m]) \<Longrightarrow> spansIn lo ?a fs \<and> ?a \<le> ?b \<and> ?b \<le> hi"
      by (induction fs arbitrary: lo) auto
  qed
  from sp [OF snoc.prems(1)] have o: "spansIn 0 ?a fs" "?a \<le> ?b" "?b \<le> P" by simp_all
  then have a0: "0 \<le> ?a" by (auto dest: spansIn_le)
  from snoc.prems have rm: "r m = Inr (t m)" and rfs: "\<forall>m\<in>set fs. r m = Inr (t m)" by simp_all
  have aP: "?a \<le> P" using o by simp
  have alen: "?a \<le> int (length s)" using aP snoc.prems(2) by simp
  have s1: "slice_to (take (nat P) s @ tail) ?a = Inr (take (nat ?a) s)"
    using a0 aP snoc.prems(2) by (rule slice_to_take)
  have s2: "slice_from (take (nat P) s @ tail) ?b = Inr (sub s ?b P @ tail)"
    using a0 o snoc.prems(2) by (intro slice_from_take) simp_all
  have "replaceLoop r (take (nat P) s @ tail) (rev (fs @ [m]))
      = replaceLoop r (take (nat ?a) s @ (t m @ sub s ?b P @ tail)) (rev fs)"
    by (simp add: rm s1 s2)
  also have "\<dots> = Inr (splice t (take (nat ?a) s) 0 fs @ (t m @ sub s ?b P @ tail))"
    using o(1) alen rfs by (rule snoc.IH)
  also have "splice t (take (nat ?a) s) 0 fs @ (t m @ sub s ?b P @ tail)
      = splice t (take (nat P) s) 0 (fs @ [m]) @ tail"
  proof -
    let ?u = "take (nat P) s"
    have lu: "int (length ?u) = P" using snoc.prems(2) a0 aP by simp
    have "splice t ?u 0 (fs @ [m])
        = splice t (take (nat ?a) ?u) 0 fs @ t m @ sub ?u ?b (int (length ?u))"
      using o lu by (intro splice_snoc) simp_all
    moreover have "take (nat ?a) ?u = take (nat ?a) s"
      using aP by (simp add: min_def nat_le_iff)
    moreover have "sub ?u ?b (int (length ?u)) = sub s ?b P"
      using a0 o snoc.prems(2) by (intro sub_take_end) simp_all
    ultimately show ?thesis by simp
  qed
  finally show ?case .
qed

lemmas matcher_eval =
  scripted_def resultObj_def matchResult_def IsValid_def IsMap_def MapIndex_def AsString_def
  IsString_def AsNumber_def IsArrayOf_def arrayElems_def AsCallable_def goInt_def

lemma accessors:
  "IsMap (JMap kvs)" "AsString (JString v) = Some v" "AsNumber (JNumber a) = Some a"
  "AsCallable (JCallable c) = Some c" "arrayElems (JArray xs) = xs"
  "IsArrayOf (JArray xs) P = list_all P xs"
  "MapIndex (JMap kvs) k = (case map_of kvs k of None \<Rightarrow> JInvalid | Some x \<Rightarrow> x)"
  by (simp_all add: IsMap_def AsString_def AsNumber_def AsCallable_def arrayElems_def
        IsArrayOf_def MapIndex_def)

lemma matchResult_resultObj:
  "matchResult (resultObj v a b gs nxt)
     = Inr (\<lparr>mvalue = v, indexes = (goInt a, goInt b), groups = gs\<rparr>, nxt)"
proof -
  have a: "list_all IsString (map JString gs)"
    by (induction gs) (simp_all add: IsString_def accessors)
  have b: "map ((\<lambda>v. case AsString v of None \<Rightarrow> [] | Some s \<Rightarrow> s) \<circ> JString) gs = gs"
    by (induction gs) (simp_all add: accessors)
  show ?thesis
    by (simp add: resultObj_def matchResult_def accessors a b)
qed

lemma yields_commas: "yields commas 0 [JString s] [comma 1, comma 3, comma 5]"
  by (simp add: commas_def comma_def mstart_def mend_def matcher_eval)

text \<open>
  Claim C2, as amended. The driver calls the matcher and its continuations until the end
  is reported, whatever the limit is: for a matcher with \<open>length ms\<close> matches it makes
  \<open>length ms + 1\<close> calls, and a limit from 0 on only cuts the finished list to its first
  matches. \<^verbatim>\<open>Contains\<close> drives the matcher without a limit, with as many calls, and is
  true exactly when there is a match; for a matcher without matches it is false after one
  call.
\<close>

theorem driver_drains_matcher:
  "yields call fn [JString s] ms \<Longrightarrow>
   extractMatches call fn s limit
     = Some (Inr (if 0 \<le> limit \<and> limit < int (length ms) then take (nat limit) ms else ms),
             length ms + 1)
   \<and> Contains call s (SCCallable fn) = Some (Inr (ms \<noteq> []), length ms + 1)"
  by (simp add: extractMatches_yields Contains_def)

theorem driver_drains_matcher_witness:
  "yields commas 0 [JString ''a,b,c,d''] [comma 1, comma 3, comma 5]
   \<and> extractMatches commas 0 ''a,b,c,d'' 2 = Some (Inr [comma 1, comma 3], 4)
   \<and> Contains commas ''a,b,c,d'' (SCCallable 0) = Some (Inr True, 4)
   \<and> yields (scripted []) 0 [JString ''abc''] []
   \<and> Contains (scripted []) ''abc'' (SCCallable 0) = Some (Inr False, 1)"
proof -
  have y: "yields commas 0 [JString ''a,b,c,d''] [comma 1, comma 3, comma 5]"
    by (rule yields_commas)
  have z: "yields (scripted []) 0 [JString ''abc''] []"
    by (simp add: matcher_eval)
  from driver_drains_matcher [OF y, of 2] driver_drains_matcher [OF z, of 0] y z
  show ?thesis by simp
qed

text \<open>
  The claim as first stated fails for the three commas of \<open>a,b,c,d\<close>: with the limit 1
  the driver makes four calls, where the first call gives the one match asked for, and
  \<^verbatim>\<open>Contains\<close> makes four calls as well.
\<close>

theorem driver_over_invokes_counterexample:
  "extractMatches commas 0 ''a,b,c,d'' 1 = Some (Inr [comma 1], 4)
   \<and> Contains commas ''a,b,c,d'' (SCCallable 0) = Some (Inr True, 4)"
  by (simp add: extractMatches_def Contains_def callMatchFunc.simps commas_def comma_def mstart_def mend_def matcher_eval)

text \<open>
  Claim C4. When a matcher, after any number \<open>k\<close> of accepted results, returns a result
  that is present but not well-formed (a field \<open>match\<close>, \<open>start\<close>, \<open>end\<close>, \<open>groups\<close> or
  \<open>next\<close> is missing or of the wrong type, or the result is no object), the driver and
  each of \<^verbatim>\<open>Contains\<close>, \<^verbatim>\<open>Split\<close>, \<^verbatim>\<open>Match\<close> and \<^verbatim>\<open>Replace\<close> return an error
  and nothing else: the matches collected before are not returned. The driver stops with
  that call.
\<close>

theorem contract_violation_fails:
  "violatesAfter call fn [JString s] k \<Longrightarrow>
   (\<exists>e. extractMatches call fn s n = Some (Inl e, k + 1))
   \<and> (\<exists>e. Contains call s (SCCallable fn) = Some (Inl e, k + 1))
   \<and> (\<exists>e c. Split call s (SCCallable fn) limit = Some (Inl e, c))
   \<and> (\<exists>e c. Match call s fn limit = Some (Inl e, c))
   \<and> (\<exists>e c. Replace call s (SCCallable fn) repl limit = Some (Inl e, c))"
proof (intro conjI)
  assume v: "violatesAfter call fn [JString s] k"
  then have x: "\<And>n. \<exists>e. extractMatches call fn s n = Some (Inl e, k + 1)"
    by (rule extractMatches_violates)
  from x show "\<exists>e. extractMatches call fn s n = Some (Inl e, k + 1)" .
  from x [of "- 1"] show "\<exists>e. Contains call s (SCCallable fn) = Some (Inl e, k + 1)"
    by (auto simp: Contains_def)
  from x [of "- 1"] show "\<exists>e c. Split call s (SCCallable fn) limit = Some (Inl e, c)"
    by (auto simp: Split_def)
  from x [of "maxOf limit"] show "\<exists>e c. Match call s fn limit = Some (Inl e, c)"
    by (auto simp: Match_def)
  from x [of "maxOf limit"] show "\<exists>e c. Replace call s (SCCallable fn) repl limit = Some (Inl e, c)"
    by (cases repl) (auto simp: Replace_def replaceMatchFunc_def)
qed

theorem contract_violation_fails_witness:
  "violatesAfter noGroups 0 [JString ''a,b,c''] 1
   \<and> Match noGroups ''a,b,c'' 0 unset = Some (Inl ErrGroupsField, 2)
   \<and> Replace noGroups ''a,b,c'' (SCCallable 0) (SCString ''-'') unset = Some (Inl ErrGroupsField, 2)
   \<and> Split noGroups ''a,b,c'' (SCCallable 0) unset = Some (Inl ErrGroupsField, 2)
   \<and> Contains noGroups ''a,b,c'' (SCCallable 0) = Some (Inl ErrGroupsField, 2)"
proof -
  have v: "violatesAfter noGroups 0 [JString ''a,b,c''] 1"
    by (simp add: noGroups_def matcher_eval wellFormedResult_def hasField_def
          isStringValue_def isNumberValue_def)
  have e: "extractMatches noGroups 0 ''a,b,c'' n = Some (Inl ErrGroupsField, 2)" for n
    by (simp add: extractMatches_def callMatchFunc.simps noGroups_def matcher_eval)
  from contract_violation_fails [OF v, of "- 1" unset "SCString ''-''"] v
  show ?thesis
    by (auto simp: e Match_def Replace_def replaceMatchFunc_def Split_def Contains_def unset_def maxOf_def)
qed

section \<open>Properties of the match consumers\<close>

lemma strings_Index_Nil: "strings_Index s [] = Some 0"
  by (cases s) simp_all


text \<open>
  Claim C10. \<^verbatim>\<open>Contains\<close> with the empty string as a literal pattern is true for every
  subject, the empty one included, and calls no matcher.
\<close>

theorem Contains_empty_literal:
  "Contains call s (SCString []) = Some (Inr True, 0)"
  by (simp add: Contains_def strings_Contains_def strings_Index_Nil)

text \<open>
  Claim C5. \<^verbatim>\<open>Split\<close> with a limit below 0 is an argument error. With a matcher as the
  separator it drives the matcher without a bound (limit \<open>-1\<close>), so that all matches \<open>ms\<close>
  are collected with \<open>length ms + 1\<close> calls whatever the limit, builds the segment
  \<open>subject[prevEnd:start]\<close> of each match and the last segment \<open>subject[prevEnd:]\<close>, and
  only then cuts the list of segments to its first \<open>limit\<close> elements when a limit is set.
\<close>

theorem Split_matcher_enumerates_then_truncates:
  "(IntVal limit < 0 \<longrightarrow> Split call s separator limit = Some (Inl ErrSplitLimit, 0))
   \<and> (0 \<le> IntVal limit \<and> yields call fn [JString s] ms \<longrightarrow>
        extractMatches call fn s (- 1) = Some (Inr ms, length ms + 1)
        \<and> Split call s (SCCallable fn) limit
            = Some (case segments s 0 ms of Inl e \<Rightarrow> Inl e | Inr segs \<Rightarrow> Inr (firstN limit segs),
                    length ms + 1))"
proof (intro conjI impI)
  assume "IntVal limit < 0"
  then show "Split call s separator limit = Some (Inl ErrSplitLimit, 0)"
    by (simp add: Split_def)
next
  assume a: "0 \<le> IntVal limit \<and> yields call fn [JString s] ms"
  then show "extractMatches call fn s (- 1) = Some (Inr ms, length ms + 1)"
    using extractMatches_yields [of call fn s ms "- 1"] by simp
  from a show "Split call s (SCCallable fn) limit
      = Some (case segments s 0 ms of Inl e \<Rightarrow> Inl e | Inr segs \<Rightarrow> Inr (firstN limit segs),
              length ms + 1)"
    by (intro Split_matcher) simp_all
qed

theorem Split_matcher_enumerates_then_truncates_witness:
  "Split commas ''a,b,c,d'' (SCCallable 0) (limit_of (- 1)) = Some (Inl ErrSplitLimit, 0)
   \<and> yields commas 0 [JString ''a,b,c,d''] [comma 1, comma 3, comma 5]
   \<and> segments ''a,b,c,d'' 0 [comma 1, comma 3, comma 5] = Inr [''a'', ''b'', ''c'', ''d'']
   \<and> Split commas ''a,b,c,d'' (SCCallable 0) (limit_of 2) = Some (Inr [''a'', ''b''], 4)
   \<and> Split commas ''a,b,c,d'' (SCCallable 0) unset = Some (Inr [''a'', ''b'', ''c'', ''d''], 4)"
proof -
  have y: "yields commas 0 [JString ''a,b,c,d''] [comma 1, comma 3, comma 5]"
    by (rule yields_commas)
  have g: "segments ''a,b,c,d'' 0 [comma 1, comma 3, comma 5] = Inr [''a'', ''b'', ''c'', ''d'']"
    by (simp add: comma_def mstart_def mend_def slice_def slice_from_def)
  from Split_matcher_enumerates_then_truncates
         [of "limit_of (- 1)" commas "''a,b,c,d''" "SCCallable 0"]
  have a: "Split commas ''a,b,c,d'' (SCCallable 0) (limit_of (- 1)) = Some (Inl ErrSplitLimit, 0)"
    by (simp add: limit_of_def)
  from Split_matcher_enumerates_then_truncates
         [of "limit_of 2" commas "''a,b,c,d''" "SCCallable 0" 0 "[comma 1, comma 3, comma 5]"] y
  have b: "Split commas ''a,b,c,d'' (SCCallable 0) (limit_of 2) = Some (Inr [''a'', ''b''], 4)"
    unfolding g by (simp add: limit_of_def firstN_def del: yields.simps)
  from Split_matcher_enumerates_then_truncates
         [of unset commas "''a,b,c,d''" "SCCallable 0" 0 "[comma 1, comma 3, comma 5]"] y
  have c: "Split commas ''a,b,c,d'' (SCCallable 0) unset = Some (Inr [''a'', ''b'', ''c'', ''d''], 4)"
    unfolding g by (simp add: unset_def firstN_def del: yields.simps)
  from a y g b c show ?thesis by (simp del: yields.simps)
qed

text \<open>
  Claim C6. Round trip: when the matches of the separator have spans that lie in the
  subject, each starting at or after the end of the one before, and when the matched
  text of each is the text of the subject in its span, then \<^verbatim>\<open>Split\<close> without a limit
  gives one segment more than there are matches, and the segments joined with the
  matched texts between them, in order, are the subject.
\<close>

theorem Split_rejoin_roundtrip:
  assumes "yields call fn [JString s] ms" "spansOK s ms"
    and "\<forall>m\<in>set ms. mvalue m = matchedText s m"
  shows "\<exists>parts. Split call s (SCCallable fn) unset = Some (Inr parts, length ms + 1)
           \<and> length parts = length ms + 1
           \<and> rejoin parts (map mvalue ms) = s"
proof -
  from assms(2) have "spansIn 0 (int (length s)) ms" by (simp add: spansOK_def)
  with segments_ok [of 0 s ms] obtain segs where
    segs: "segments s 0 ms = Inr segs" "length segs = length ms + 1"
      "rejoin segs (map (matchedText s) ms) = s"
    by auto
  from assms(3) have "map (matchedText s) ms = map mvalue ms" by simp
  with segs(3) have r: "rejoin segs (map mvalue ms) = s" by (simp only:)
  have "Split call s (SCCallable fn) unset = Some (Inr segs, length ms + 1)"
    using Split_matcher [of unset call fn s ms] assms(1) segs(1)
    by (simp add: unset_def firstN_def)
  with segs(2) r show ?thesis by blast
qed

theorem Split_rejoin_roundtrip_witness:
  "yields commas 0 [JString ''a,b,c,d''] [comma 1, comma 3, comma 5]
   \<and> spansOK ''a,b,c,d'' [comma 1, comma 3, comma 5]
   \<and> map mvalue [comma 1, comma 3, comma 5]
       = map (matchedText ''a,b,c,d'') [comma 1, comma 3, comma 5]
   \<and> (\<exists>parts. Split commas ''a,b,c,d'' (SCCallable 0) unset = Some (Inr parts, 4)
         \<and> length parts = 4 \<and> rejoin parts ['','', '','', '',''] = ''a,b,c,d'')"
proof -
  have y: "yields commas 0 [JString ''a,b,c,d''] [comma 1, comma 3, comma 5]"
    by (rule yields_commas)
  have o: "spansOK ''a,b,c,d'' [comma 1, comma 3, comma 5]"
    by (simp add: spansOK_def comma_def mstart_def mend_def)
  have v: "\<forall>m\<in>set [comma 1, comma 3, comma 5]. mvalue m = matchedText ''a,b,c,d'' m"
    by (simp add: comma_def mstart_def mend_def matchedText_def sub_def)
  have n: "length [comma 1, comma 3, comma 5] + 1 = 4"
    "map mvalue [comma 1, comma 3, comma 5] = ['','', '','', '','']"
    by (simp_all add: comma_def mstart_def mend_def)
  from Split_rejoin_roundtrip [OF y o v]
  have "\<exists>parts. Split commas ''a,b,c,d'' (SCCallable 0) unset = Some (Inr parts, 4)
         \<and> length parts = 4 \<and> rejoin parts ['','', '','', '',''] = ''a,b,c,d''"
    by (simp only: n)
  moreover from v have "map mvalue [comma 1, comma 3, comma 5]
      = map (matchedText ''a,b,c,d'') [comma 1, comma 3, comma 5]"
    by simp
  ultimately show ?thesis using y o by blast
qed

section \<open>Properties of the replacement engine\<close>

lemma yields_unique: "yields call fn argv ms \<Longrightarrow> yields call fn argv ms' \<Longrightarrow> ms = ms'"
proof (induction ms arbitrary: fn argv ms')
  case Nil
  then show ?case by (cases ms') (auto split: called.splits)
next
  case (Cons m ms)
  then show ?case
    by (cases ms') (auto split: called.splits sum.splits)
qed

lemma firstN_max:
  "0 \<le> IntVal limit \<Longrightarrow>
   (if 0 \<le> maxOf limit \<and> maxOf limit < int (length ms) then take (nat (maxOf limit)) ms else ms)
     = firstN limit ms"
  by (simp add: maxOf_def firstN_def)

lemma replaceMatchFunc_yields:
  assumes "0 \<le> IntVal limit" "yields call fn [JString s] ms" "repl \<noteq> SCOther"
  shows "replaceMatchFunc call s fn repl (maxOf limit)
     = Some (replaceLoop (replText call repl) s (rev (firstN limit ms)), length ms + 1)"
proof -
  have "extractMatches call fn s (maxOf limit) = Some (Inr (firstN limit ms), length ms + 1)"
    using assms(2) by (simp only: extractMatches_yields firstN_max [OF assms(1)])
  moreover have "replText call repl = replacement call
      (case repl of SCCallable g \<Rightarrow> Some g | _ \<Rightarrow> None)
      (case repl of SCString s \<Rightarrow> s | _ \<Rightarrow> [])
      (ContainsRune (case repl of SCString s \<Rightarrow> s | _ \<Rightarrow> []) (CHR ''$''))"
    using assms(3) by (cases repl) (simp_all add: replText_def [abs_def] ContainsRune_def)
  ultimately show ?thesis
    using assms(3) by (cases repl) (simp_all add: replaceMatchFunc_def Let_def)
qed

lemma Replace_matcher:
  assumes "0 \<le> IntVal limit" "yields call fn [JString s] ms" "repl \<noteq> SCOther"
  shows "Replace call s (SCCallable fn) repl limit
     = Some (replaceLoop (replText call repl) s (rev (firstN limit ms)), length ms + 1)"
  using assms by (simp add: Replace_def replaceMatchFunc_yields)

lemma replaceLoop_spansOK:
  assumes "spansOK s ms" "\<forall>m\<in>set ms. r m = Inr (t m)"
  shows "replaceLoop r s (rev ms) = Inr (splice t s 0 ms)"
proof -
  have "replaceLoop r (take (nat (int (length s))) s @ []) (rev ms)
      = Inr (splice t (take (nat (int (length s))) s) 0 ms @ [])"
    using assms by (intro replaceLoop_splice) (simp_all add: spansOK_def)
  then show ?thesis by simp
qed

text \<open>
  Claim C1. \<^verbatim>\<open>Replace\<close> with a matcher pattern: the matcher returns the matches
  \<open>found\<close>, of which the limit leaves \<open>ms\<close>; their spans lie in the subject, none
  overlaps another and each starts at or after the end of the one before; the replacement
  text of each match \<open>m\<close> is \<open>t m\<close>. The substitutions, made from the last match to the
  first on the offsets of the subject, give
  \<open>subject[0:start_1] + t_1 + subject[end_1:start_2] + ... + t_k + subject[end_k:]\<close>, and
  the replacement of the first match begins at the start offset of that match, whatever
  the lengths of the replacements are.
\<close>

theorem Replace_matcher_splices:
  assumes "0 \<le> IntVal limit" "repl \<noteq> SCOther"
    and "yields call fn [JString s] found" "ms = firstN limit found"
    and "spansOK s ms" "\<forall>m\<in>set ms. replText call repl m = Inr (t m)"
  shows "Replace call s (SCCallable fn) repl limit = Some (Inr (splice t s 0 ms), length found + 1)
     \<and> (\<forall>m rest. ms = m # rest \<longrightarrow>
           take (length (t m)) (drop (nat (mstart m)) (splice t s 0 ms)) = t m)"
proof (intro conjI allI impI)
  show "Replace call s (SCCallable fn) repl limit = Some (Inr (splice t s 0 ms), length found + 1)"
    using assms by (simp add: Replace_matcher replaceLoop_spansOK)
next
  fix m rest
  assume ms: "ms = m # rest"
  let ?a = "mstart m"
  from assms(5) ms have o: "0 \<le> ?a" "?a \<le> mend m"
    "spansIn (mend m) (int (length s)) rest"
    by (simp_all add: spansOK_def)
  then have "mend m \<le> int (length s)" by (auto dest: spansIn_le)
  with o have "length (sub s 0 ?a) = nat ?a"
    by (simp add: sub_def)
  then show "take (length (t m)) (drop (nat ?a) (splice t s 0 ms)) = t m"
    by (simp add: ms)
qed

lemma yields_twoSpans: "yields twoSpans 0 [JString s] [span ''cd'' 2 4, span ''kl'' 10 12]"
  by (simp add: twoSpans_def span_def mstart_def mend_def matcher_eval)

lemma replText_literal:
  "replText call (SCString ''<$0$0>'') m = Inr (''<'' @ mvalue m @ mvalue m @ ''>'')"
proof -
  have "expandReplaceString (''<'' @ CHR ''$'' # ''0$0>'') m
      = emit (''<'' @ mvalue m) (expandReplaceString ''$0>'' m)"
    by (subst expand_dollar) (simp_all add: token_zero)
  moreover have "expandReplaceString ([] @ CHR ''$'' # ''0>'') m
      = emit ([] @ mvalue m) (expandReplaceString ''>'' m)"
    by (subst expand_dollar) (simp_all add: token_zero)
  moreover have "expandReplaceString ''>'' m = Inr ''>''"
    by (simp add: expand_plain)
  ultimately show ?thesis
    by (simp add: replText_def replacement_def ContainsRune_def)
qed

theorem Replace_matcher_splices_witness:
  "yields twoSpans 0 [JString subject20] [span ''cd'' 2 4, span ''kl'' 10 12]
   \<and> spansOK subject20 [span ''cd'' 2 4, span ''kl'' 10 12]
   \<and> Replace twoSpans subject20 (SCCallable 0) (SCString ''<$0$0>'') unset
       = Some (Inr ''ab<cdcd>efghij<klkl>mnopqrst'', 3)
   \<and> take 6 (drop 2 ''ab<cdcd>efghij<klkl>mnopqrst'') = ''<cdcd>''"
proof -
  let ?ms = "[span ''cd'' 2 4, span ''kl'' 10 12]"
  let ?t = "\<lambda>m. ''<'' @ mvalue m @ mvalue m @ ''>''"
  have y: "yields twoSpans 0 [JString subject20] ?ms"
    by (rule yields_twoSpans)
  have h: "0 \<le> IntVal unset" "SCString ''<$0$0>'' \<noteq> (SCOther :: nat StringCallable)"
    "yields twoSpans 0 [JString subject20] ?ms" "?ms = firstN unset ?ms"
    "spansOK subject20 ?ms"
    "\<forall>m\<in>set ?ms. replText twoSpans (SCString ''<$0$0>'') m = Inr (?t m)"
  proof -
    show "yields twoSpans 0 [JString subject20] ?ms" by (rule y)
  qed (simp_all add: unset_def firstN_def spansOK_def span_def mstart_def mend_def subject20_def replText_literal)
  have "splice ?t subject20 0 ?ms = ''ab<cdcd>efghij<klkl>mnopqrst''"
    by (simp add: span_def mstart_def mend_def subject20_def sub_def)
  with Replace_matcher_splices [OF h] h show ?thesis
    by simp
qed

lemma pickGroup_error: "pickGroup idxs gs k = Some (Inl e) \<Longrightarrow> e = PanicIndex"
  by (induction k) (auto simp: Let_def split: if_splits)

lemma token_error: "token s1 m = Inl e \<Longrightarrow> e = PanicIndex"
  by (auto simp: token_def split: if_splits option.splits sum.splits prod.splits
        dest: pickGroup_error)

lemma expandLoop_error: "expandLoop s m acc = Inl e \<Longrightarrow> e = PanicIndex"
proof (induction s arbitrary: acc rule: length_induct)
  case (1 s)
  show ?case
  proof (cases "IndexRune s (CHR ''$'')")
    case None
    with "1.prems" show ?thesis by (simp add: expandLoop_None)
  next
    case (Some pos)
    show ?thesis
    proof (cases "drop (Suc pos) s = []")
      case True
      with Some "1.prems" show ?thesis by (simp add: expandLoop_end)
    next
      case False
      then have less: "length (drop (Suc pos) s) < length s" by simp
      show ?thesis
      proof (cases "token (drop (Suc pos) s) m")
        case (Inl e')
        with Some False "1.prems" have "e = e'" by (simp add: expandLoop_token)
        with Inl show ?thesis by (simp add: token_error)
      next
        case (Inr p)
        obtain out rest where p: "p = (out, rest)" by (cases p)
        from token_length [OF False Inr [unfolded p]] less
        have "length rest < length s" by simp
        moreover have "expandLoop rest m (acc @ take pos s @ out) = Inl e"
          using Some False Inr p "1.prems" by (simp add: expandLoop_token)
        ultimately show ?thesis using "1.IH" by blast
      qed
    qed
  qed
qed

lemma replText_no_slice_panic: "replText call repl m \<noteq> Inl PanicSlice"
proof
  assume a: "replText call repl m = Inl PanicSlice"
  show False
  proof (cases repl)
    case (SCString r)
    with a have "expandReplaceString r m = Inl PanicSlice"
      by (simp add: replText_def replacement_def split: if_splits)
    then show False
      by (auto simp: expandReplaceString_def dest: expandLoop_error)
  next
    case (SCCallable g)
    with a show False
      by (simp add: replText_def replacement_def callReplaceFunc_def
            split: called.splits option.splits)
  next
    case SCOther
    with a show False by (simp add: replText_def)
  qed
qed

lemma spansIn_take: "spansIn lo hi ms \<Longrightarrow> spansIn lo hi (take n ms)"
proof (induction ms arbitrary: lo n)
  case Nil
  then show ?case by simp
next
  case (Cons m ms)
  show ?case
  proof (cases n)
    case 0
    with Cons.prems show ?thesis by (auto dest: spansIn_le)
  next
    case (Suc k)
    with Cons show ?thesis by simp
  qed
qed

lemma spansIn_snoc:
  "spansIn lo hi (fs @ [m]) \<Longrightarrow>
   spansIn lo (mstart m) fs \<and> mstart m \<le> mend m \<and> mend m \<le> hi"
  by (induction fs arbitrary: lo) auto

lemma replaceLoop_error:
  "spansIn 0 P ms \<Longrightarrow> P \<le> int (length s) \<Longrightarrow>
   replaceLoop r (take (nat P) s @ tail) (rev ms) = Inl e \<Longrightarrow> \<exists>m\<in>set ms. r m = Inl e"
proof (induction ms arbitrary: P tail rule: rev_induct)
  case Nil
  then show ?case by simp
next
  case (snoc m fs)
  let ?a = "mstart m" and ?b = "mend m"
  from spansIn_snoc [OF snoc.prems(1)] have o: "spansIn 0 ?a fs" "?a \<le> ?b" "?b \<le> P" by simp_all
  then have a0: "0 \<le> ?a" by (auto dest: spansIn_le)
  have aP: "?a \<le> P" using o by simp
  have alen: "?a \<le> int (length s)" using aP snoc.prems(2) by simp
  have s1: "slice_to (take (nat P) s @ tail) ?a = Inr (take (nat ?a) s)"
    using a0 aP snoc.prems(2) by (rule slice_to_take)
  have s2: "slice_from (take (nat P) s @ tail) ?b = Inr (sub s ?b P @ tail)"
    using a0 o snoc.prems(2) by (intro slice_from_take) simp_all
  show ?case
  proof (cases "r m")
    case (Inl e')
    with snoc.prems(3) have "e' = e" by simp
    with Inl show ?thesis by simp
  next
    case (Inr x)
    with snoc.prems(3) s1 s2
    have "replaceLoop r (take (nat ?a) s @ (x @ sub s ?b P @ tail)) (rev fs) = Inl e"
      by simp
    from snoc.IH [OF o(1) alen this] show ?thesis by auto
  qed
qed

lemma goInt_in_range:
  assumes "- (2 ^ 63) \<le> x" "x < 2 ^ 63"
  shows "sint (goInt (Finite (of_int x))) = x"
proof -
  have "goInt (Finite (of_int x)) = word_of_int x"
    using assms by (simp add: goInt_def)
  moreover have "sint (word_of_int x :: 64 word) = x"
    using assms by (simp add: signed_of_int signed_take_bit_int_eq_self)
  ultimately show ?thesis by simp
qed

text \<open>
  A number beyond the 64-bit range, an infinity and not-a-number are all stored as the
  smallest integer.
\<close>

lemma goInt_beyond_range:
  "goInt (Finite (2 ^ 63)) = minInt64" "goInt PosInf = minInt64" "goInt NegInf = minInt64"
  "goInt NaN = minInt64" "sint minInt64 = - (2 ^ 63)"
  by (simp_all add: goInt_def minInt64_def)

text \<open>
  Claim C8, as amended. The driver accepts a result with any numbers \<open>start\<close> and \<open>end\<close>:
  they are converted to 64-bit integers and stored, and compared with nothing, so that a
  record carries every whole number of the 64-bit range that a matcher returns, whatever
  the subject is. When the matches that a matcher returns have spans with
  \<open>0 \<le> start \<le> end \<le> len(subject)\<close>, each starting at or after the end of the one
  before, the slices of \<^verbatim>\<open>Split\<close> and of \<^verbatim>\<open>Replace\<close> are in range: \<^verbatim>\<open>Split\<close> returns
  its segments and \<^verbatim>\<open>Replace\<close> does not panic in a slice.
\<close>

theorem spans_unchecked_slicing_safe:
  "matchResult (resultObj v a b gs nxt)
     = Inr (\<lparr>mvalue = v, indexes = (goInt a, goInt b), groups = gs\<rparr>, nxt)
   \<and> (- (2 ^ 63) \<le> x \<and> x < 2 ^ 63 \<longrightarrow> sint (goInt (Finite (of_int x))) = x)
   \<and> (0 \<le> IntVal limit \<and> yields call fn [JString s] ms \<and> spansOK s ms \<longrightarrow>
        (\<exists>parts. Split call s (SCCallable fn) limit = Some (Inr parts, length ms + 1))
        \<and> (\<forall>c. Replace call s (SCCallable fn) repl limit \<noteq> Some (Inl PanicSlice, c)))"
proof (intro conjI impI allI)
  show "matchResult (resultObj v a b gs nxt)
     = Inr (\<lparr>mvalue = v, indexes = (goInt a, goInt b), groups = gs\<rparr>, nxt)"
    by (rule matchResult_resultObj)
next
  assume "- (2 ^ 63) \<le> x \<and> x < 2 ^ 63"
  then show "sint (goInt (Finite (of_int x))) = x"
    by (simp add: goInt_in_range)
next
  assume h: "0 \<le> IntVal limit \<and> yields call fn [JString s] ms \<and> spansOK s ms"
  then have sp: "spansIn 0 (int (length s)) ms" by (simp add: spansOK_def)
  with segments_ok [of 0 s ms] obtain segs where "segments s 0 ms = Inr segs" by auto
  with h Split_matcher [of limit call fn s ms]
  show "\<exists>parts. Split call s (SCCallable fn) limit = Some (Inr parts, length ms + 1)"
    by simp
next
  fix c
  assume h: "0 \<le> IntVal limit \<and> yields call fn [JString s] ms \<and> spansOK s ms"
  show "Replace call s (SCCallable fn) repl limit \<noteq> Some (Inl PanicSlice, c)"
  proof (cases "repl = SCOther")
    case True
    with h show ?thesis by (simp add: Replace_def replaceMatchFunc_def)
  next
    case False
    with h have R: "Replace call s (SCCallable fn) repl limit
        = Some (replaceLoop (replText call repl) s (rev (firstN limit ms)), length ms + 1)"
      by (intro Replace_matcher) simp_all
    from h have "spansIn 0 (int (length s)) (firstN limit ms)"
      by (simp add: spansOK_def firstN_def spansIn_take)
    then have "replaceLoop (replText call repl) s (rev (firstN limit ms)) = Inl PanicSlice
        \<Longrightarrow> \<exists>m\<in>set (firstN limit ms). replText call repl m = Inl PanicSlice"
      using replaceLoop_error [of "int (length s)" "firstN limit ms" s "replText call repl" "[]"
          PanicSlice]
      by simp
    then have "replaceLoop (replText call repl) s (rev (firstN limit ms)) \<noteq> Inl PanicSlice"
      by (auto simp: replText_no_slice_panic)
    with R show ?thesis by simp
  qed
qed

theorem spans_unchecked_slicing_safe_witness:
  "- (2 ^ 63) \<le> (- 7 :: int) \<and> (- 7 :: int) < 2 ^ 63 \<and> sint (goInt (Finite (- 7))) = - 7
   \<and> yields commas 0 [JString ''a,b,c,d''] [comma 1, comma 3, comma 5]
   \<and> spansOK ''a,b,c,d'' [comma 1, comma 3, comma 5]
   \<and> (\<exists>parts. Split commas ''a,b,c,d'' (SCCallable 0) (limit_of 2) = Some (Inr parts, 4))
   \<and> Replace commas ''a,b,c,d'' (SCCallable 0) (SCString ''--'') (limit_of 2)
       \<noteq> Some (Inl PanicSlice, 4)"
proof -
  have y: "yields commas 0 [JString ''a,b,c,d''] [comma 1, comma 3, comma 5]"
    by (rule yields_commas)
  have o: "spansOK ''a,b,c,d'' [comma 1, comma 3, comma 5]"
    by (simp add: spansOK_def comma_def mstart_def mend_def)
  have l: "0 \<le> IntVal (limit_of 2)" by (simp add: limit_of_def)
  have n: "length [comma 1, comma 3, comma 5] + 1 = 4" by simp
  have r: "- (2 ^ 63) \<le> (- 7 :: int) \<and> (- 7 :: int) < 2 ^ 63" by simp
  note t = spans_unchecked_slicing_safe
    [where v = "[]" and a = "Finite 0" and b = "Finite 0" and gs = "[]" and nxt = "0 :: nat"
       and x = "- 7" and limit = "limit_of 2" and call = commas and fn = 0
       and s = "''a,b,c,d''" and ms = "[comma 1, comma 3, comma 5]" and repl = "SCString ''--''"]
  from t r have g: "sint (goInt (Finite (- 7))) = - 7"
    by (simp del: yields.simps)
  from t y o l
  have "(\<exists>parts. Split commas ''a,b,c,d'' (SCCallable 0) (limit_of 2) = Some (Inr parts, 4))
    \<and> (\<forall>c. Replace commas ''a,b,c,d'' (SCCallable 0) (SCString ''--'') (limit_of 2)
          \<noteq> Some (Inl PanicSlice, c))"
    unfolding n by blast
  with r g y o show ?thesis by blast
qed

text \<open>
  The claim as first stated fails for a matcher that returns a match from 5 to 2 in the
  subject \<open>ab\<close>: the driver accepts the record, and the slices of \<^verbatim>\<open>Split\<close> and
  \<^verbatim>\<open>Replace\<close> panic.
\<close>

theorem driver_accepts_any_span_counterexample:
  "extractMatches backwards 0 ''ab'' (- 1) = Some (Inr [span ''x'' 5 2], 2)
   \<and> Split backwards ''ab'' (SCCallable 0) unset = Some (Inl PanicSlice, 2)
   \<and> Replace backwards ''ab'' (SCCallable 0) (SCString ''-'') unset = Some (Inl PanicSlice, 2)"
  by (simp add: extractMatches_def callMatchFunc.simps backwards_def span_def mstart_def mend_def
        matcher_eval Split_def Replace_def replaceMatchFunc_def unset_def maxOf_def slice_def slice_from_def
        slice_to_def replacement_def ContainsRune_def)

lemma strings_Index_Cons:
  "strings_Index (x # xs) old =
     (if take (length old) (x # xs) = old then Some 0 else map_option Suc (strings_Index xs old))"
  by simp

lemma substitute_no_instance: "strings_Index s old = None \<Longrightarrow> substitute old new b s = s"
proof (induction s)
  case Nil
  show ?case by (subst substitute.simps) simp
next
  case (Cons x xs)
  from Cons.prems have "take (length old) (x # xs) \<noteq> old" "strings_Index xs old = None"
    by (auto simp: strings_Index_Cons simp del: strings_Index.simps split: if_splits)
  with Cons.IH show ?case
    by (subst substitute.simps) simp
qed

lemma substitute_first_instance:
  "old \<noteq> [] \<Longrightarrow> strings_Index s old = Some j \<Longrightarrow> b \<noteq> Some 0 \<Longrightarrow>
   substitute old new b s
     = take j s @ new @ substitute old new (map_option (\<lambda>k. k - 1) b) (drop (j + length old) s)"
proof (induction s arbitrary: j)
  case Nil
  then show ?case by (simp split: if_splits)
next
  case (Cons x xs)
  show ?case
  proof (cases "take (length old) (x # xs) = old")
    case True
    with Cons.prems have "j = 0" by (simp add: strings_Index_Cons del: strings_Index.simps)
    with True Cons.prems show ?thesis
      by (subst substitute.simps) simp
  next
    case False
    with Cons.prems obtain i where i: "strings_Index xs old = Some i" "j = Suc i"
      by (auto simp: strings_Index_Cons simp del: strings_Index.simps)
    from Cons.IH [OF Cons.prems(1) i(1) Cons.prems(3)] False Cons.prems(1,3) show ?thesis
      by (subst substitute.simps) (simp add: i)
  qed
qed

lemma replaceOld_substitute:
  "old \<noteq> [] \<Longrightarrow> replaceOld s old new k = substitute old new (Some k) s"
proof (induction k arbitrary: s)
  case 0
  show ?case by (subst substitute.simps) simp
next
  case (Suc k)
  show ?case
  proof (cases "strings_Index s old")
    case None
    then show ?thesis by (simp add: substitute_no_instance)
  next
    case (Some j)
    with Suc show ?thesis
      by (simp add: substitute_first_instance)
  qed
qed

lemma drop_instance_less:
  assumes "old \<noteq> []" "strings_Index s old = Some i"
  shows "length (drop (i + length old) s) < length s"
proof -
  from assms have "i + length old \<le> length s" "0 < length old"
    by (simp_all add: strings_Index_le)
  then show ?thesis unfolding length_drop by arith
qed

lemma countLoop_instance:
  "old \<noteq> [] \<Longrightarrow> strings_Index s old = Some i \<Longrightarrow>
   countLoop s old n = countLoop (drop (i + length old) s) old (Suc n)"
  by (subst countLoop.simps) simp

lemma countLoop_no_instance: "strings_Index s old = None \<Longrightarrow> countLoop s old n = n"
  by (subst countLoop.simps) simp

lemma countLoop_acc: "countLoop s old n = n + countLoop s old 0"
proof (induction s arbitrary: n rule: length_induct)
  case (1 s)
  show ?case
  proof (cases "old = []")
    case True
    then show ?thesis by (simp add: countLoop.simps)
  next
    case False
    show ?thesis
    proof (cases "strings_Index s old")
      case None
      then show ?thesis by (simp add: countLoop_no_instance)
    next
      case (Some i)
      let ?rest = "drop (i + length old) s"
      from drop_instance_less [OF False Some] "1.IH"
      have ih: "\<And>m. countLoop ?rest old m = m + countLoop ?rest old 0" by blast
      have "countLoop s old n = Suc n + countLoop ?rest old 0"
        using ih [of "Suc n"] by (simp only: countLoop_instance [OF False Some])
      moreover have "countLoop s old 0 = Suc 0 + countLoop ?rest old 0"
        using ih [of "Suc 0"] by (simp only: countLoop_instance [OF False Some])
      ultimately show ?thesis by simp
    qed
  qed
qed

lemma substitute_enough:
  "old \<noteq> [] \<Longrightarrow> countLoop s old 0 \<le> k \<Longrightarrow>
   substitute old new (Some k) s = substitute old new None s"
proof (induction s arbitrary: k rule: length_induct)
  case (1 s)
  show ?case
  proof (cases "strings_Index s old")
    case None
    then show ?thesis by (simp add: substitute_no_instance)
  next
    case (Some i)
    let ?rest = "drop (i + length old) s"
    have c: "countLoop s old 0 = Suc (countLoop ?rest old 0)"
      using countLoop_acc [of ?rest old "Suc 0"]
      by (simp add: countLoop_instance [OF "1.prems"(1) Some])
    with "1.prems" obtain k' where k: "k = Suc k'" "countLoop ?rest old 0 \<le> k'"
      by (cases k) auto
    from drop_instance_less [OF "1.prems"(1) Some] "1.IH" "1.prems"(1) k(2)
    have "substitute old new (Some k') ?rest = substitute old new None ?rest" by blast
    then show ?thesis
      using "1.prems"(1) Some
      by (simp add: substitute_first_instance k)
  qed
qed

lemma substitute_same: "substitute old old b s = s"
proof (induction s arbitrary: b rule: length_induct)
  case (1 s)
  show ?case
  proof (cases "old = [] \<or> b = Some 0 \<or> s = []")
    case True
    then show ?thesis by (subst substitute.simps) simp
  next
    case False
    show ?thesis
    proof (cases "take (length old) s = old")
      case True
      from False have "length (drop (length old) s) < length s" by simp
      with "1.IH" have "substitute old old (map_option (\<lambda>k. k - 1) b) (drop (length old) s)
          = drop (length old) s" by blast
      with False True have "substitute old old b s = old @ drop (length old) s"
        by (subst substitute.simps) simp
      also have "\<dots> = take (length old) s @ drop (length old) s" by (simp only: True)
      finally show ?thesis by simp
    next
      case no: False
      from False have "length (tl s) < length s" by simp
      with "1.IH" have "substitute old old b (tl s) = tl s" by blast
      with False no show ?thesis
        by (subst substitute.simps) simp
    qed
  qed
qed

lemma strings_Replace_substitute:
  assumes "old \<noteq> []"
  shows "strings_Replace s old new n
     = substitute old new (if n < 0 then None else Some (nat n)) s"
proof (cases "old = new \<or> n = 0")
  case True
  then show ?thesis
  proof
    assume "old = new"
    then show ?thesis by (simp add: strings_Replace_def substitute_same)
  next
    assume "n = 0"
    then show ?thesis by (simp add: strings_Replace_def substitute.simps [of old new "Some 0"])
  qed
next
  case False
  let ?m = "countLoop s old 0"
  have m: "strings_Count s old = ?m" using assms by (simp add: strings_Count_def)
  show ?thesis
  proof (cases "?m = 0")
    case True
    have "strings_Index s old = None"
    proof (cases "strings_Index s old")
      case (Some i)
      with True countLoop_acc [of "drop (i + length old) s" old "Suc 0"]
      show ?thesis by (simp add: countLoop_instance [OF assms Some])
    qed simp
    with True False m show ?thesis
      by (simp add: strings_Replace_def substitute_no_instance)
  next
    case pos: False
    let ?k = "if n < 0 \<or> int ?m < n then ?m else nat n"
    have "strings_Replace s old new n = replaceOld s old new ?k"
      using False pos m assms by (simp add: strings_Replace_def Let_def)
    also have "\<dots> = substitute old new (Some ?k) s"
      using assms by (rule replaceOld_substitute)
    also have "\<dots> = substitute old new (if n < 0 then None else Some (nat n)) s"
    proof (cases "n < 0 \<or> int ?m < n")
      case True
      then have "substitute old new (Some ?k) s = substitute old new None s"
        using assms by (simp add: substitute_enough)
      moreover have "\<not> n < 0 \<Longrightarrow> substitute old new (Some (nat n)) s = substitute old new None s"
        using True assms by (intro substitute_enough) auto
      ultimately show ?thesis by simp
    next
      case False
      then show ?thesis by simp
    qed
    finally show ?thesis .
  qed
qed

text \<open>
  Claim C7. \<^verbatim>\<open>Replace\<close> with a literal pattern that is not empty and a literal
  replacement is the ordinary substitution from the left, of at most \<open>limit\<close> instances
  when a limit is set and of every instance otherwise; \<open>Replace("aaa", "a", "b", 2)\<close> is
  \<open>bba\<close>. The empty literal pattern is an argument error, and so is a callable as the
  replacement of a literal pattern.
\<close>

theorem Replace_literal:
  "Replace call ''aaa'' (SCString ''a'') (SCString ''b'') (limit_of 2) = Some (Inr ''bba'', 0)
   \<and> (0 \<le> IntVal limit \<and> pattern \<noteq> [] \<longrightarrow>
        Replace call src (SCString pattern) (SCString new) limit
          = Some (Inr (substitute pattern new
                         (if IsSet limit then Some (nat (IntVal limit)) else None) src), 0))
   \<and> (0 \<le> IntVal limit \<longrightarrow>
        Replace call src (SCString []) repl limit = Some (Inl ErrReplaceEmpty, 0))
   \<and> (0 \<le> IntVal limit \<and> pattern \<noteq> [] \<longrightarrow>
        Replace call src (SCString pattern) (SCCallable f) limit
          = Some (Inl ErrReplaceNotString, 0))"
proof (intro conjI impI)
  have "strings_Replace ''aaa'' ''a'' ''b'' 2 = substitute ''a'' ''b'' (Some 2) ''aaa''"
    by (simp add: strings_Replace_substitute)
  also have "\<dots> = ''bba''"
    by (simp add: substitute.simps)
  finally show "Replace call ''aaa'' (SCString ''a'') (SCString ''b'') (limit_of 2)
      = Some (Inr ''bba'', 0)"
    by (simp add: Replace_def replaceString_def limit_of_def maxOf_def)
next
  assume "0 \<le> IntVal limit \<and> pattern \<noteq> []"
  then show "Replace call src (SCString pattern) (SCString new) limit
          = Some (Inr (substitute pattern new
                         (if IsSet limit then Some (nat (IntVal limit)) else None) src), 0)"
    by (simp add: Replace_def replaceString_def maxOf_def strings_Replace_substitute)
next
  assume "0 \<le> IntVal limit"
  then show "Replace call src (SCString []) repl limit = Some (Inl ErrReplaceEmpty, 0)"
    by (simp add: Replace_def replaceString_def)
next
  assume "0 \<le> IntVal limit \<and> pattern \<noteq> []"
  then show "Replace call src (SCString pattern) (SCCallable f) limit
          = Some (Inl ErrReplaceNotString, 0)"
    by (simp add: Replace_def replaceString_def)
qed

theorem Replace_literal_witness:
  "0 \<le> IntVal unset \<and> ''ab'' \<noteq> []
   \<and> Replace commas ''abbabab'' (SCString ''ab'') (SCString ''x'') unset = Some (Inr ''xbxx'', 0)
   \<and> Replace commas ''abbabab'' (SCString ''ab'') (SCString ''x'') (limit_of 2) = Some (Inr ''xbxab'', 0)
   \<and> Replace commas ''abbabab'' (SCString []) (SCString ''x'') unset = Some (Inl ErrReplaceEmpty, 0)
   \<and> Replace commas ''abbabab'' (SCString ''ab'') (SCCallable 0) unset
       = Some (Inl ErrReplaceNotString, 0)"
proof -
  have u: "0 \<le> IntVal unset \<and> ''ab'' \<noteq> []" by (simp add: unset_def)
  have l: "0 \<le> IntVal (limit_of 2) \<and> ''ab'' \<noteq> []" by (simp add: limit_of_def)
  have a: "substitute ''ab'' ''x'' None ''abbabab'' = ''xbxx''"
    by (simp add: substitute.simps)
  have b: "substitute ''ab'' ''x'' (Some 2) ''abbabab'' = ''xbxab''"
    by (simp add: substitute.simps)
  from Replace_literal [of commas unset "''ab''" "''abbabab''" "''x''" "SCString ''x''" 0] u
  have 1: "Replace commas ''abbabab'' (SCString ''ab'') (SCString ''x'') unset = Some (Inr ''xbxx'', 0)"
    "Replace commas ''abbabab'' (SCString []) (SCString ''x'') unset = Some (Inl ErrReplaceEmpty, 0)"
    "Replace commas ''abbabab'' (SCString ''ab'') (SCCallable 0) unset
       = Some (Inl ErrReplaceNotString, 0)"
    by (simp_all add: a unset_def)
  from Replace_literal [of commas "limit_of 2" "''ab''" "''abbabab''" "''x''" "SCString ''x''" 0] l
  have 2: "Replace commas ''abbabab'' (SCString ''ab'') (SCString ''x'') (limit_of 2)
      = Some (Inr ''xbxab'', 0)"
    by (simp add: b limit_of_def)
  from u 1 2 show ?thesis by simp
qed

end
